theory Spec2Isabelle
  imports Main "HOL-Library.Word" "HOL-Library.Sublist"
begin

section \<open>The peekbuffer package: data model\<close>

text \<open>
  The package wraps an \<^verbatim>\<open>io.Reader\<close> in a \<^verbatim>\<open>PeekBuffer\<close> that holds the bytes already
  pulled from the reader and not yet consumed. A byte is an 8-bit word; a Go byte slice
  is, in this first model, the list of its elements (the model with an explicit store,
  where slices share backing arrays, follows further down).
\<close>

type_synonym byte = "8 word"

text \<open>
  The values of Go's \<^verbatim>\<open>error\<close> interface that occur: the three sentinels of
  package io that the code compares against or that \<^verbatim>\<open>io.ReadAtLeast\<close> produces, and any
  other failure of the source, tagged by its message. A nil error is \<open>None\<close>.
\<close>

datatype error = EOF | ErrUnexpectedEOF | ErrShortBuffer | IOFailure string

text \<open>The run-time panics the code can raise.\<close>

datatype panic = SliceBounds | IndexRange | MakeSliceLen

text \<open>
  An \<^verbatim>\<open>io.Reader\<close> is an object with a method \<^verbatim>\<open>Read(p []byte) (n int, err error)\<close>.
  It is modelled by its state \<open>'r\<close> and its method as a function of the state and of
  \<^verbatim>\<open>len(p)\<close>, returning the bytes stored into \<^verbatim>\<open>p[:n]\<close> (so \<open>n\<close> is the length of that
  list), the error and the next state.
\<close>

type_synonym 'r reader = "'r \<Rightarrow> nat \<Rightarrow> byte list \<times> error option \<times> 'r"

text \<open>
  The struct \<^verbatim>\<open>PeekBuffer\<close>. Its two embedded interface fields are never assigned and never
  used (the methods \<^verbatim>\<open>Read\<close> and \<^verbatim>\<open>ReadByte\<close> of the struct shadow them), so the record
  keeps the fields \<^verbatim>\<open>reader\<close> and \<^verbatim>\<open>buffer\<close>.
\<close>

record 'r PeekBuffer =
  reader :: 'r
  buffer :: "byte list"

definition NewPeekBuffer :: "'r \<Rightarrow> 'r PeekBuffer" where
  "NewPeekBuffer r = \<lparr>reader = r, buffer = []\<rparr>"

definition FillPeekBufferSize :: int where
  "FillPeekBufferSize = 4096"

section \<open>Go's machine integers\<close>

text \<open>
  Go's \<^verbatim>\<open>int\<close> is taken as 64 bits wide. Arithmetic wraps around in two's complement,
  which \<open>int64\<close> writes out; \<^verbatim>\<open>/\<close> truncates towards zero.
\<close>

definition int64 :: "int \<Rightarrow> int" where
  "int64 x = (x + 2 ^ 63) mod 2 ^ 64 - 2 ^ 63"

definition is_int64 :: "int \<Rightarrow> bool" where
  "is_int64 x \<longleftrightarrow> - (2 ^ 63) \<le> x \<and> x < 2 ^ 63"

definition quot :: "int \<Rightarrow> int \<Rightarrow> int" where
  "quot a b = sgn a * sgn b * (\<bar>a\<bar> div \<bar>b\<bar>)"

section \<open>The pulls of package io\<close>

text \<open>
  \<^verbatim>\<open>io.ReadAtLeast(r, buf, min)\<close> of Go's standard library:
  \<^verbatim>\<open>
  if len(buf) < min { return 0, ErrShortBuffer }
  for n < min && err == nil {
      var nn int
      nn, err = r.Read(buf[n:])
      n += nn
  }
  if n >= min { err = nil } else if n > 0 && err == EOF { err = ErrUnexpectedEOF }
  return
  \<close>
  The loop runs for as long as the reader returns no byte and no error, so it is a
  partial function: \<open>None\<close> is the loop that never returns. The accumulator \<open>acc\<close> is
  \<^verbatim>\<open>buf[:n]\<close>. In the loop \<open>n < min \<le> len(buf)\<close>, so that \<^verbatim>\<open>buf[n:]\<close> is in range and has
  \<open>len(buf) - n\<close> elements.
\<close>

partial_function (option) ReadAtLeast_loop ::
  "'r reader \<Rightarrow> nat \<Rightarrow> nat \<Rightarrow> 'r \<Rightarrow> byte list \<Rightarrow> error option
     \<Rightarrow> (byte list \<times> error option \<times> 'r) option" where
  "ReadAtLeast_loop rd len_buf min_n r acc err =
     (if length acc < min_n \<and> err = None then
        (case rd r (len_buf - length acc) of
           (d, e, r') \<Rightarrow> ReadAtLeast_loop rd len_buf min_n r' (acc @ d) e)
      else Some (acc, err, r))"

definition ReadAtLeast ::
  "'r reader \<Rightarrow> 'r \<Rightarrow> nat \<Rightarrow> nat \<Rightarrow> (byte list \<times> error option \<times> 'r) option" where
  "ReadAtLeast rd r len_buf min_n =
     (if len_buf < min_n then Some ([], Some ErrShortBuffer, r)
      else case ReadAtLeast_loop rd len_buf min_n r [] None of
             None \<Rightarrow> None
           | Some (acc, err, r') \<Rightarrow>
               Some (acc,
                     (if length acc \<ge> min_n then None
                      else if length acc > 0 \<and> err = Some EOF then Some ErrUnexpectedEOF
                      else err),
                     r'))"

definition ReadFull ::
  "'r reader \<Rightarrow> 'r \<Rightarrow> nat \<Rightarrow> (byte list \<times> error option \<times> 'r) option" where
  "ReadFull rd r len_buf = ReadAtLeast rd r len_buf len_buf"

section \<open>The operations of PeekBuffer\<close>

text \<open>
  \<^verbatim>\<open>Read(p)\<close>: the argument is \<^verbatim>\<open>len(p)\<close>, the result the bytes copied into \<^verbatim>\<open>p[:n]\<close>, the
  error and the buffer after the call.
\<close>

definition Read ::
  "'r reader \<Rightarrow> 'r PeekBuffer \<Rightarrow> nat \<Rightarrow> byte list \<times> error option \<times> 'r PeekBuffer" where
  "Read rd this len_p =
     (if length (buffer this) > 0 then
        (let n = min len_p (length (buffer this))
         in (take n (buffer this), None, this\<lparr>buffer := drop n (buffer this)\<rparr>))
      else
        (case rd (reader this) len_p of
           (d, e, r') \<Rightarrow> (d, e, this\<lparr>reader := r'\<rparr>)))"

text \<open>
  \<^verbatim>\<open>ReadByte()\<close>. \<^verbatim>\<open>buf[:n]\<close> panics when a reader that breaks the contract of
  \<^verbatim>\<open>io.Reader\<close> has returned a count beyond \<^verbatim>\<open>len(buf)\<close>.
\<close>

definition ReadByte ::
  "'r reader \<Rightarrow> 'r PeekBuffer \<Rightarrow> (panic + byte \<times> error option \<times> 'r PeekBuffer) option" where
  "ReadByte rd this =
     (if length (buffer this) > 0 then
        Some (Inr (hd (buffer this), None, this\<lparr>buffer := tl (buffer this)\<rparr>))
      else
        (case ReadAtLeast rd (reader this) (nat FillPeekBufferSize) 1 of
           None \<Rightarrow> None
         | Some (data, err, r') \<Rightarrow>
             if length data > 0 then
               if int (length data) > FillPeekBufferSize then Some (Inl SliceBounds)
               else
                 (let b = buffer this @ data
                  in Some (Inr (hd b, None, this\<lparr>reader := r', buffer := tl b\<rparr>)))
             else Some (Inr (0, err, this\<lparr>reader := r'\<rparr>))))"

text \<open>
  \<^verbatim>\<open>make([]byte, n)\<close> panics, in the runtime's \<^verbatim>\<open>makeslice\<close>, when \<open>n\<close> is negative or
  above \<^verbatim>\<open>maxAlloc\<close>, the largest allocation the runtime admits: \<open>2^48\<close> bytes on the 64-bit
  platforms (linux/amd64) that this model takes. Running out of memory below that limit is a
  fatal error of the runtime and not a panic; it is outside the model. So is the failure of
  \<^verbatim>\<open>append\<close> to grow the pending buffer: the runtime refuses a backing array above
  \<^verbatim>\<open>maxAlloc\<close> there too, but only for a buffer that holds about that many bytes read from
  the source. \<^verbatim>\<open>append\<close> is taken to succeed.
\<close>

definition maxAlloc :: int where
  "maxAlloc = 2 ^ 48"

definition make_panics :: "int \<Rightarrow> bool" where
  "make_panics n \<longleftrightarrow> n < 0 \<or> maxAlloc < n"

text \<open>
  \<^verbatim>\<open>Peek(size)\<close>. \<open>roundedNeed\<close> is the length given to \<^verbatim>\<open>make\<close>; \<open>Peek_finish\<close> is the part
  of the method after the pull, from \<^verbatim>\<open>have := len(this.buffer)\<close> on. Appending no byte to a
  list leaves it as it is, so the test \<^verbatim>\<open>n > 0\<close> before \<^verbatim>\<open>append\<close> is not written here.
\<close>

definition roundedNeed :: "int \<Rightarrow> int" where
  "roundedNeed need =
     int64 (quot (int64 (int64 (need + FillPeekBufferSize) - 1)) FillPeekBufferSize
            * FillPeekBufferSize)"

definition Peek_finish ::
  "'r PeekBuffer \<Rightarrow> int \<Rightarrow> error option
     \<Rightarrow> (panic + byte list \<times> error option \<times> 'r PeekBuffer) option" where
  "Peek_finish this sz err =
     (let have = int (length (buffer this));
          have = (if sz < have then sz else have)
      in if have < 0 then Some (Inl SliceBounds)
         else if err \<noteq> None \<and> err \<noteq> Some EOF \<and> err \<noteq> Some ErrUnexpectedEOF
           then Some (Inr (take (nat have) (buffer this), err, this))
         else Some (Inr (take (nat have) (buffer this), None, this)))"

definition Peek ::
  "'r reader \<Rightarrow> 'r PeekBuffer \<Rightarrow> int
     \<Rightarrow> (panic + byte list \<times> error option \<times> 'r PeekBuffer) option" where
  "Peek rd this sz =
     (let need = int64 (sz - int (length (buffer this)))
      in if need > 0 then
           (let rn = roundedNeed need
            in if make_panics rn then Some (Inl MakeSliceLen)
               else
                 (case ReadFull rd (reader this) (nat rn) of
                    None \<Rightarrow> None
                  | Some (data, err, r') \<Rightarrow>
                      if length data > nat rn then Some (Inl SliceBounds)
                      else Peek_finish (this\<lparr>reader := r', buffer := buffer this @ data\<rparr>)
                             sz err))
         else Peek_finish this sz None)"

text \<open>\<^verbatim>\<open>PeekByte(offset)\<close>; \<^verbatim>\<open>peeked[offset]\<close> panics on a negative index.\<close>

definition PeekByte ::
  "'r reader \<Rightarrow> 'r PeekBuffer \<Rightarrow> int
     \<Rightarrow> (panic + byte \<times> error option \<times> 'r PeekBuffer) option" where
  "PeekByte rd this offset =
     (case Peek rd this (int64 (offset + 1)) of
        None \<Rightarrow> None
      | Some (Inl p) \<Rightarrow> Some (Inl p)
      | Some (Inr (peeked, err, this')) \<Rightarrow>
          if err \<noteq> None then Some (Inr (0, err, this'))
          else if offset \<ge> int (length peeked) then Some (Inr (0, Some EOF, this'))
          else if offset < 0 then Some (Inl IndexRange)
          else Some (Inr (peeked ! nat offset, None, this')))"

section \<open>The sources used by the package's tests\<close>

text \<open>
  \<^verbatim>\<open>bytes.NewReader(s)\<close>: the state is the part of \<open>s\<close> not yet read. Its \<^verbatim>\<open>Read\<close> returns
  \<^verbatim>\<open>0, io.EOF\<close> when nothing is left and otherwise copies as much as fits, with a nil error.
\<close>

definition bytes_Reader :: "byte list reader" where
  "bytes_Reader s len_p =
     (if s = [] then ([], Some EOF, s) else (take len_p s, None, drop len_p s))"

text \<open>
  \<^verbatim>\<open>ErrorReader\<close> of the test file: \<^verbatim>\<open>Read\<close> returns \<^verbatim>\<open>0, e.err\<close>. The state is the field
  \<^verbatim>\<open>err\<close>.
\<close>

definition ErrorReader_Read :: "error option reader" where
  "ErrorReader_Read e len_p = ([], e, e)"

section \<open>Sources in general\<close>

text \<open>
  A reader keeps the contract of \<^verbatim>\<open>io.Reader\<close> when it never returns more bytes than
  \<^verbatim>\<open>len(p)\<close>. A reader delivers a content when each call returns the next bytes of what is
  left of it, whatever the lengths of the pieces and whatever the errors.
\<close>

definition conforming :: "'r reader \<Rightarrow> bool" where
  "conforming rd \<longleftrightarrow> (\<forall>r n. length (fst (rd r n)) \<le> n)"

definition delivers :: "'r reader \<Rightarrow> ('r \<Rightarrow> byte list) \<Rightarrow> bool" where
  "delivers rd content \<longleftrightarrow>
     (\<forall>r n. content r = fst (rd r n) @ content (snd (snd (rd r n))))"

text \<open>
  A source that hands out its bytes like \<^verbatim>\<open>bytes.Reader\<close> and then fails with the error
  \<open>e\<close> instead of \<^verbatim>\<open>io.EOF\<close>, as a connection that breaks does.
\<close>

definition broken_Reader :: "error \<Rightarrow> byte list reader" where
  "broken_Reader e s len_p =
     (if s = [] then ([], Some e, s) else (take len_p s, None, drop len_p s))"

section \<open>Sequences of calls\<close>

text \<open>
  A caller's sequence of calls on one PeekBuffer. \<open>run\<close> makes the calls in order, each on
  the buffer the one before has left, and returns the bytes that the consuming calls
  (\<^verbatim>\<open>Read\<close> and \<^verbatim>\<open>ReadByte\<close>) have returned, in order: the \<open>n\<close> bytes of a \<^verbatim>\<open>Read\<close>, and the byte
  of a \<^verbatim>\<open>ReadByte\<close> whose error is nil. A panic ends the run.
\<close>

datatype call = Call_Read nat | Call_ReadByte | Call_Peek int | Call_PeekByte int

definition returned ::
  "byte list \<Rightarrow> (panic + byte list \<times> 's) option \<Rightarrow> (panic + byte list \<times> 's) option" where
  "returned d rest =
     (case rest of
        None \<Rightarrow> None
      | Some (Inl p) \<Rightarrow> Some (Inl p)
      | Some (Inr (out, this')) \<Rightarrow> Some (Inr (d @ out, this')))"

fun run ::
  "'r reader \<Rightarrow> 'r PeekBuffer \<Rightarrow> call list \<Rightarrow> (panic + byte list \<times> 'r PeekBuffer) option" where
  "run rd this [] = Some (Inr ([], this))"
| "run rd this (Call_Read len_p # cs) =
     (case Read rd this len_p of (d, e, this') \<Rightarrow> returned d (run rd this' cs))"
| "run rd this (Call_ReadByte # cs) =
     (case ReadByte rd this of
        None \<Rightarrow> None
      | Some (Inl p) \<Rightarrow> Some (Inl p)
      | Some (Inr (b, e, this')) \<Rightarrow>
          returned (if e = None then [b] else []) (run rd this' cs))"
| "run rd this (Call_Peek sz # cs) =
     (case Peek rd this sz of
        None \<Rightarrow> None
      | Some (Inl p) \<Rightarrow> Some (Inl p)
      | Some (Inr (view, e, this')) \<Rightarrow> run rd this' cs)"
| "run rd this (Call_PeekByte offset # cs) =
     (case PeekByte rd this offset of
        None \<Rightarrow> None
      | Some (Inl p) \<Rightarrow> Some (Inl p)
      | Some (Inr (b, e, this')) \<Rightarrow> run rd this' cs)"

text \<open>
  Calls of Peek in a row, with no consuming call between them: the views they return, in
  order, and the buffer after the last.
\<close>

fun peeks ::
  "'r reader \<Rightarrow> 'r PeekBuffer \<Rightarrow> int list
     \<Rightarrow> (panic + byte list list \<times> 'r PeekBuffer) option" where
  "peeks rd this [] = Some (Inr ([], this))"
| "peeks rd this (sz # szs) =
     (case Peek rd this sz of
        None \<Rightarrow> None
      | Some (Inl p) \<Rightarrow> Some (Inl p)
      | Some (Inr (view, e, this')) \<Rightarrow>
          (case peeks rd this' szs of
             None \<Rightarrow> None
           | Some (Inl p) \<Rightarrow> Some (Inl p)
           | Some (Inr (views, this'')) \<Rightarrow> Some (Inr (view # views, this''))))"

section \<open>Slices that share their backing arrays\<close>

text \<open>
  The view that Peek returns is the slice expression \<^verbatim>\<open>this.buffer[:have]\<close>, which shares
  the backing array of \<^verbatim>\<open>this.buffer\<close>. To follow a write through the view, the methods are
  modelled a second time over an explicit store: a heap of arrays, and slices that are
  windows on them, as in Go: a slice is the array it points into, the index of its first
  element there, its length and its capacity.
\<close>

record heap =
  cells :: "nat \<Rightarrow> byte list"
  next_arr :: nat

record slice =
  arr :: nat
  off :: nat
  len :: nat
  cap :: nat


text \<open>
  The elements of a slice, and a slice that lies within its array, in an array that the
  heap has handed out (array 0 is the one of the nil slice).
\<close>

definition elems :: "heap \<Rightarrow> slice \<Rightarrow> byte list" where
  "elems h s = take (len s) (drop (off s) (cells h (arr s)))"

definition wf_slice :: "heap \<Rightarrow> slice \<Rightarrow> bool" where
  "wf_slice h s \<longleftrightarrow>
     len s \<le> cap s \<and> off s + cap s \<le> length (cells h (arr s)) \<and> arr s < next_arr h"

text \<open>\<open>store a i data\<close> is the array \<open>a\<close> with \<open>data\<close> written from index \<open>i\<close> on.\<close>

definition store :: "byte list \<Rightarrow> nat \<Rightarrow> byte list \<Rightarrow> byte list" where
  "store a i data = take i a @ data @ drop (i + length data) a"

text \<open>
  \<^verbatim>\<open>copy(dst, src)\<close>, given the elements of \<^verbatim>\<open>src\<close>: it copies \<open>min (len dst) (len src)\<close>
  elements and returns that number.
\<close>

definition copy_n :: "slice \<Rightarrow> byte list \<Rightarrow> nat" where
  "copy_n dst src = min (len dst) (length src)"

definition copy_h :: "heap \<Rightarrow> slice \<Rightarrow> byte list \<Rightarrow> heap" where
  "copy_h h dst src =
     h\<lparr>cells := (cells h)(arr dst :=
          store (cells h (arr dst)) (off dst) (take (copy_n dst src) src))\<rparr>"

text \<open>\<^verbatim>\<open>s[n:]\<close> and \<^verbatim>\<open>s[:k]\<close>.\<close>

definition slice_from :: "slice \<Rightarrow> nat \<Rightarrow> slice" where
  "slice_from s n = s\<lparr>off := off s + n, len := len s - n, cap := cap s - n\<rparr>"

definition slice_to :: "slice \<Rightarrow> nat \<Rightarrow> slice" where
  "slice_to s k = s\<lparr>len := k\<rparr>"

text \<open>
  \<^verbatim>\<open>append(s, data...)\<close>: within the capacity it writes behind the slice, in the same
  array; beyond it, it moves the elements to a new array. The capacity of the new array is
  the runtime's choice, at least the length needed: \<open>grow\<close>, given the old capacity and
  the length needed, stands for that choice.
\<close>

definition append_h ::
  "(nat \<Rightarrow> nat \<Rightarrow> nat) \<Rightarrow> heap \<Rightarrow> slice \<Rightarrow> byte list \<Rightarrow> heap \<times> slice" where
  "append_h grow h s data =
     (if len s + length data \<le> cap s then
        (h\<lparr>cells := (cells h)(arr s := store (cells h (arr s)) (off s + len s) data)\<rparr>,
         s\<lparr>len := len s + length data\<rparr>)
      else
        (let newcap = max (len s + length data) (grow (cap s) (len s + length data));
             a = next_arr h
         in (h\<lparr>cells := (cells h)(a :=
                  elems h s @ data @ replicate (newcap - (len s + length data)) 0),
               next_arr := a + 1\<rparr>,
             \<lparr>arr = a, off = 0, len = len s + length data, cap = newcap\<rparr>)))"

text \<open>
  The PeekBuffer whose field \<^verbatim>\<open>buffer\<close> is a slice in the heap, and its methods. The array
  \<^verbatim>\<open>buf\<close> that \<^verbatim>\<open>Peek\<close> and \<^verbatim>\<open>ReadByte\<close> make for the pull is local to the call and nothing
  points to it afterwards: the pull's bytes \<^verbatim>\<open>buf[:n]\<close> are kept as a value. The argument
  \<^verbatim>\<open>p\<close> of \<^verbatim>\<open>Read\<close> is a slice of the caller's; \<^verbatim>\<open>Read\<close> returns \<open>n\<close>, the error, the heap and the
  buffer.
\<close>

record 'r PeekBuffer_h =
  reader_h :: 'r
  buffer_h :: slice

definition Read_h ::
  "'r reader \<Rightarrow> heap \<Rightarrow> 'r PeekBuffer_h \<Rightarrow> slice
     \<Rightarrow> nat \<times> error option \<times> heap \<times> 'r PeekBuffer_h" where
  "Read_h rd h this p =
     (if len (buffer_h this) > 0 then
        (let n = copy_n p (elems h (buffer_h this))
         in (n, None, copy_h h p (elems h (buffer_h this)),
             this\<lparr>buffer_h := slice_from (buffer_h this) n\<rparr>))
      else
        (case rd (reader_h this) (len p) of
           (d, e, r') \<Rightarrow> (length d, e, copy_h h p d, this\<lparr>reader_h := r'\<rparr>)))"

definition ReadByte_h ::
  "(nat \<Rightarrow> nat \<Rightarrow> nat) \<Rightarrow> 'r reader \<Rightarrow> heap \<Rightarrow> 'r PeekBuffer_h
     \<Rightarrow> (panic + byte \<times> error option \<times> heap \<times> 'r PeekBuffer_h) option" where
  "ReadByte_h grow rd h this =
     (if len (buffer_h this) > 0 then
        Some (Inr (hd (elems h (buffer_h this)), None, h,
                   this\<lparr>buffer_h := slice_from (buffer_h this) 1\<rparr>))
      else
        (case ReadAtLeast rd (reader_h this) (nat FillPeekBufferSize) 1 of
           None \<Rightarrow> None
         | Some (data, err, r') \<Rightarrow>
             if length data > 0 then
               if int (length data) > FillPeekBufferSize then Some (Inl SliceBounds)
               else
                 (case append_h grow h (buffer_h this) data of
                    (h', b) \<Rightarrow>
                      Some (Inr (hd (elems h' b), None, h',
                                 this\<lparr>reader_h := r', buffer_h := slice_from b 1\<rparr>)))
             else Some (Inr (0, err, h, this\<lparr>reader_h := r'\<rparr>))))"

definition Peek_finish_h ::
  "heap \<Rightarrow> 'r PeekBuffer_h \<Rightarrow> int \<Rightarrow> error option
     \<Rightarrow> (panic + slice \<times> error option \<times> heap \<times> 'r PeekBuffer_h) option" where
  "Peek_finish_h h this sz err =
     (let have = int (len (buffer_h this));
          have = (if sz < have then sz else have)
      in if have < 0 then Some (Inl SliceBounds)
         else if err \<noteq> None \<and> err \<noteq> Some EOF \<and> err \<noteq> Some ErrUnexpectedEOF
           then Some (Inr (slice_to (buffer_h this) (nat have), err, h, this))
         else Some (Inr (slice_to (buffer_h this) (nat have), None, h, this)))"

definition Peek_h ::
  "(nat \<Rightarrow> nat \<Rightarrow> nat) \<Rightarrow> 'r reader \<Rightarrow> heap \<Rightarrow> 'r PeekBuffer_h \<Rightarrow> int
     \<Rightarrow> (panic + slice \<times> error option \<times> heap \<times> 'r PeekBuffer_h) option" where
  "Peek_h grow rd h this sz =
     (let need = int64 (sz - int (len (buffer_h this)))
      in if need > 0 then
           (let rn = roundedNeed need
            in if make_panics rn then Some (Inl MakeSliceLen)
               else
                 (case ReadFull rd (reader_h this) (nat rn) of
                    None \<Rightarrow> None
                  | Some (data, err, r') \<Rightarrow>
                      if length data > nat rn then Some (Inl SliceBounds)
                      else if length data > 0 then
                        (case append_h grow h (buffer_h this) data of
                           (h', b) \<Rightarrow>
                             Peek_finish_h h' (this\<lparr>reader_h := r', buffer_h := b\<rparr>) sz err)
                      else Peek_finish_h h (this\<lparr>reader_h := r'\<rparr>) sz err))
         else Peek_finish_h h this sz None)"


text \<open>The list of bytes that a PeekBuffer in the heap stands for.\<close>

definition abs_h :: "heap \<Rightarrow> 'r PeekBuffer_h \<Rightarrow> 'r PeekBuffer" where
  "abs_h h this = \<lparr>reader = reader_h this, buffer = elems h (buffer_h this)\<rparr>"

section \<open>Wrap-around and the rounded shortfall\<close>

lemma wrap_above:
  assumes "h \<le> x" "x < 3 * h"
  shows "(x + h) mod (2 * h) - h = (x::int) - 2 * h"
proof -
  have "(x + h) mod (2 * h) = (x - h + 2 * h) mod (2 * h)" by (simp add: algebra_simps)
  also have "\<dots> = (x - h) mod (2 * h)" by (rule mod_add_self2)
  also have "\<dots> = x - h" using assms by simp
  finally show ?thesis by simp
qed

lemma wrap_below:
  assumes "- (3 * h) \<le> x" "x < - h"
  shows "(x + h) mod (2 * h) - h = (x::int) + 2 * h"
proof -
  have "(x + h) mod (2 * h) = (x + 3 * h - 2 * h) mod (2 * h)" by (simp add: algebra_simps)
  also have "\<dots> = (x + 3 * h) mod (2 * h)"
    using mod_diff_right_eq [of "x + 3 * h" "2 * h" "2 * h"] by simp
  also have "\<dots> = x + 3 * h" using assms by simp
  finally show ?thesis by simp
qed

lemma is_int64_id: "is_int64 x \<Longrightarrow> int64 x = x"
  by (simp add: is_int64_def int64_def)

lemma int64_above: "2 ^ 63 \<le> x \<Longrightarrow> x < 3 * 2 ^ 63 \<Longrightarrow> int64 x = x - 2 ^ 64"
  unfolding int64_def using wrap_above [of "2 ^ 63" x] by simp

lemma int64_below: "- (3 * 2 ^ 63) \<le> x \<Longrightarrow> x < - (2 ^ 63) \<Longrightarrow> int64 x = x + 2 ^ 64"
  unfolding int64_def using wrap_below [of "2 ^ 63" x] by simp

lemma int64_add_left: "int64 (int64 a + b) = int64 (a + b)"
proof -
  have "(int64 a + b + 2 ^ 63) mod 2 ^ 64 = ((a + 2 ^ 63) mod 2 ^ 64 + b) mod 2 ^ 64"
    by (simp add: int64_def)
  also have "\<dots> = (a + 2 ^ 63 + b) mod 2 ^ 64"
    by (rule mod_add_left_eq)
  also have "\<dots> = (a + b + 2 ^ 63) mod 2 ^ 64"
    by (simp add: ac_simps)
  finally show ?thesis
    unfolding int64_def by simp
qed


lemma roundedNeed_small:
  assumes "0 < need" "need \<le> 2 ^ 63 - 4096"
  shows "roundedNeed need = (need + 4095) div 4096 * 4096"
proof -
  have "int64 (need + 4096 + (- 1)) = need + 4096 + (- 1)"
    using assms by (intro is_int64_id) (simp add: is_int64_def)
  then have a: "int64 (int64 (need + 4096) - 1) = need + 4095"
    using int64_add_left [of "need + 4096" "- 1"] by simp
  have b: "quot (need + 4095) 4096 = (need + 4095) div 4096"
    using assms by (simp add: quot_def)
  have c: "(need + 4095) div 4096 * 4096 \<le> need + 4095" by simp
  have d: "0 \<le> (need + 4095) div 4096 * 4096" using assms by simp
  have "is_int64 ((need + 4095) div 4096 * 4096)"
    unfolding is_int64_def using c d assms by linarith
  then show ?thesis
    unfolding roundedNeed_def FillPeekBufferSize_def a b
    by (rule is_int64_id)
qed

lemma roundedNeed_bounds:
  assumes "0 < need" "need \<le> maxAlloc"
  shows "need \<le> roundedNeed need" "roundedNeed need < need + 4096" "0 < roundedNeed need"
    and "\<not> make_panics (roundedNeed need)"
proof -
  have r: "roundedNeed need = (need + 4095) div 4096 * 4096"
    using assms by (intro roundedNeed_small) (simp_all add: maxAlloc_def)
  show "need \<le> roundedNeed need" "roundedNeed need < need + 4096" "0 < roundedNeed need"
    using assms by (simp_all add: r)
  have "(need + 4095) div 4096 \<le> 2 ^ 36" using assms by (simp add: maxAlloc_def)
  then have "(need + 4095) div 4096 * 4096 \<le> 2 ^ 36 * 4096" by (rule mult_right_mono) simp
  then show "\<not> make_panics (roundedNeed need)"
    using assms by (simp add: r make_panics_def maxAlloc_def)
qed

lemma roundedNeed_overflow:
  assumes "2 ^ 63 - 4096 < need" "need < 2 ^ 63"
  shows "roundedNeed need < 0"
proof -
  have "int64 (need + 4096 + (- 1)) = need + 4096 + (- 1) - 2 ^ 64"
    using assms by (intro int64_above) simp_all
  then have a: "int64 (int64 (need + 4096) - 1) = need + 4095 - 2 ^ 64"
    using int64_add_left [of "need + 4096" "- 1"] by simp
  have b: "quot (need + 4095 - 2 ^ 64) 4096 = - ((2 ^ 64 - need - 4095) div 4096)"
    using assms by (simp add: quot_def sgn_if)
  have c: "2 ^ 51 - 1 \<le> (2 ^ 64 - need - 4095) div 4096" "(2 ^ 64 - need - 4095) div 4096 \<le> 2 ^ 51"
    using assms by simp_all
  then have d: "is_int64 (- ((2 ^ 64 - need - 4095) div 4096) * 4096)"
    by (simp add: is_int64_def)
  show ?thesis
    unfolding roundedNeed_def FillPeekBufferSize_def a b is_int64_id [OF d]
    using c by simp
qed

lemma roundedNeed_make_panics:
  assumes "maxAlloc < need" "need < 2 ^ 63"
  shows "make_panics (roundedNeed need)"
proof (cases "need \<le> 2 ^ 63 - 4096")
  case True
  with assms have "roundedNeed need = (need + 4095) div 4096 * 4096"
    by (intro roundedNeed_small) (simp_all add: maxAlloc_def)
  moreover have "need \<le> (need + 4095) div 4096 * 4096" by simp
  ultimately show ?thesis using assms by (simp add: make_panics_def)
next
  case False
  with assms have "roundedNeed need < 0" by (intro roundedNeed_overflow) simp_all
  then show ?thesis by (simp add: make_panics_def)
qed

text \<open>From here on the two limits of \<^verbatim>\<open>make\<close> are unfolded by the simplifier.\<close>

declare maxAlloc_def [simp] make_panics_def [simp]

section \<open>The pulls\<close>

lemma loop_exit:
  assumes "ReadAtLeast_loop rd lb m r acc err = Some y"
  shows "prefix acc (fst y) \<and> \<not> (length (fst y) < m \<and> fst (snd y) = None)"
  using assms
proof (induction rd lb m r acc err y rule: ReadAtLeast_loop.raw_induct [rotated 1, consumes 1])
  case (1 f rd lb m r acc err y)
  show ?case
  proof (cases "length acc < m \<and> err = None")
    case True
    obtain d e r' where rd: "rd r (lb - length acc) = (d, e, r')"
      by (cases "rd r (lb - length acc)") auto
    from 1(2) True rd have "f rd lb m r' (acc @ d) e = Some y" by simp
    from 1(1) [OF this] show ?thesis by (auto dest: append_prefixD)
  next
    case False
    with 1(2) show ?thesis by auto
  qed
qed

lemma loop_conforming:
  assumes "ReadAtLeast_loop rd lb m r acc err = Some y" "conforming rd" "length acc \<le> lb"
  shows "length (fst y) \<le> lb"
  using assms
proof (induction rd lb m r acc err y rule: ReadAtLeast_loop.raw_induct [rotated 1, consumes 1])
  case (1 f rd lb m r acc err y)
  show ?case
  proof (cases "length acc < m \<and> err = None")
    case True
    obtain d e r' where rd: "rd r (lb - length acc) = (d, e, r')"
      by (cases "rd r (lb - length acc)") auto
    from 1(2) True rd have a: "f rd lb m r' (acc @ d) e = Some y" by simp
    from 1(3) rd have "length d \<le> lb - length acc"
      unfolding conforming_def by (metis fst_conv)
    with 1(4) have "length (acc @ d) \<le> lb" by simp
    from 1(1) [OF a 1(3) this] show ?thesis .
  next
    case False
    with 1(2,4) show ?thesis by auto
  qed
qed

lemma loop_delivers:
  assumes "ReadAtLeast_loop rd lb m r acc err = Some y" "delivers rd c"
  shows "acc @ c r = fst y @ c (snd (snd y))"
  using assms
proof (induction rd lb m r acc err y rule: ReadAtLeast_loop.raw_induct [rotated 1, consumes 1])
  case (1 f rd lb m r acc err y)
  show ?case
  proof (cases "length acc < m \<and> err = None")
    case True
    obtain d e r' where rd: "rd r (lb - length acc) = (d, e, r')"
      by (cases "rd r (lb - length acc)") auto
    from 1(2) True rd have a: "f rd lb m r' (acc @ d) e = Some y" by simp
    from 1(3) rd have "c r = d @ c r'"
      unfolding delivers_def by (metis fst_conv snd_conv)
    with 1(1) [OF a 1(3)] show ?thesis by simp
  next
    case False
    with 1(2) show ?thesis by auto
  qed
qed

lemma ReadAtLeast_Some:
  assumes "ReadAtLeast rd r lb m = Some (data, err, r')"
  shows "(delivers rd c \<longrightarrow> c r = data @ c r')"
    and "(conforming rd \<longrightarrow> length data \<le> lb)"
    and "err = None \<longleftrightarrow> m \<le> length data"
    and "data \<noteq> [] \<Longrightarrow> err \<noteq> Some EOF"
proof -
  show "delivers rd c \<longrightarrow> c r = data @ c r'"
    using assms loop_delivers [of rd lb m r "[]" None _ c]
    by (auto simp: ReadAtLeast_def split: if_splits option.splits)
  show "conforming rd \<longrightarrow> length data \<le> lb"
    using assms loop_conforming [of rd lb m r "[]" None]
    by (auto simp: ReadAtLeast_def split: if_splits option.splits)
  show "err = None \<longleftrightarrow> m \<le> length data"
    using assms loop_exit [of rd lb m r "[]" None]
    by (auto simp: ReadAtLeast_def split: if_splits option.splits)
  show "data \<noteq> [] \<Longrightarrow> err \<noteq> Some EOF"
    using assms 
    by (auto simp: ReadAtLeast_def split: if_splits option.splits)
qed

lemma bytes_Reader_loop2:
  "ReadAtLeast_loop bytes_Reader lb m [] acc err = Some (acc, if length acc < m \<and> err = None then Some EOF else err, [])"
  by (subst ReadAtLeast_loop.simps, subst ReadAtLeast_loop.simps) (simp add: bytes_Reader_def)

lemma bytes_Reader_loop:
  assumes "m \<le> lb"
  shows "ReadAtLeast_loop bytes_Reader lb m s [] None =
     Some (if m = 0 then ([], None, s)
           else (take lb s, if m \<le> length s then None else Some EOF, drop lb s))"
proof (cases "m = 0")
  case True
  then show ?thesis by (subst ReadAtLeast_loop.simps) simp
next
  case m: False
  show ?thesis
  proof (cases "s = []")
    case True
    with m show ?thesis by (simp add: bytes_Reader_loop2)
  next
    case s: False
    have step: "ReadAtLeast_loop bytes_Reader lb m s [] None =
                ReadAtLeast_loop bytes_Reader lb m (drop lb s) (take lb s) None"
      using m s by (subst ReadAtLeast_loop.simps) (simp add: bytes_Reader_def)
    show ?thesis
    proof (cases "m \<le> length s")
      case True
      with assms have "\<not> length (take lb s) < m" by simp
      then have "ReadAtLeast_loop bytes_Reader lb m (drop lb s) (take lb s) None =
                 Some (take lb s, None, drop lb s)"
        by (subst ReadAtLeast_loop.simps) simp
      with step m True show ?thesis by simp
    next
      case False
      with assms have "drop lb s = []" "take lb s = s" by simp_all
      with step False m show ?thesis by (simp add: bytes_Reader_loop2)
    qed
  qed
qed

lemma bytes_Reader_ReadAtLeast:
  "m \<le> n \<Longrightarrow> ReadAtLeast bytes_Reader s n m =
     Some (if m = 0 then [] else take n s,
           if m \<le> length s then None else if s = [] then Some EOF else Some ErrUnexpectedEOF,
           if m = 0 then s else drop n s)"
  by (auto simp add: ReadAtLeast_def bytes_Reader_loop)

lemma bytes_Reader_ReadFull:
  "ReadFull bytes_Reader s n =
     Some (take n s,
           if n \<le> length s then None else if s = [] then Some EOF else Some ErrUnexpectedEOF,
           drop n s)"
  by (auto simp add: ReadFull_def bytes_Reader_ReadAtLeast )

section \<open>Peek, case by case\<close>

lemma ReadFull_Some:
  assumes "ReadFull rd r lb = Some (data, err, r')"
  shows "delivers rd c \<Longrightarrow> c r = data @ c r'"
    and "conforming rd \<Longrightarrow> length data \<le> lb"
  using ReadAtLeast_Some(1,2) [OF assms [unfolded ReadFull_def]] by blast+

lemma Peek_finish_neg: "sz < 0 \<Longrightarrow> Peek_finish this sz err = Some (Inl SliceBounds)"
  by (simp add: Peek_finish_def Let_def)

lemma Peek_finish_nonneg:
  "0 \<le> sz \<Longrightarrow> Peek_finish this sz err =
     Some (Inr (take (nat sz) (buffer this),
                (if err = Some EOF \<or> err = Some ErrUnexpectedEOF then None else err), this))"
  by (auto simp add: Peek_finish_def Let_def)

lemma Peek_finish_Inr:
  assumes "Peek_finish this sz err = Some (Inr (view, e, this'))"
  shows "0 \<le> sz \<and> view = take (nat sz) (buffer this) \<and> this' = this \<and>
         e = (if err = Some EOF \<or> err = Some ErrUnexpectedEOF then None else err)"
proof (cases "sz < 0")
  case True
  with assms show ?thesis by (simp add: Peek_finish_neg)
next
  case False
  with assms show ?thesis by (auto simp add: Peek_finish_nonneg)
qed

text \<open>What a call of Peek that returns has done.\<close>

lemma Peek_Inr:
  assumes "Peek rd this sz = Some (Inr (view, e, this'))"
  shows "0 \<le> sz"
    and "view = take (nat sz) (buffer this')"
    and "e \<noteq> Some EOF \<and> e \<noteq> Some ErrUnexpectedEOF"
    and "\<exists>data. buffer this' = buffer this @ data"
    and "delivers rd c \<Longrightarrow> buffer this' @ c (reader this') = buffer this @ c (reader this)"
proof -
  let ?need = "int64 (sz - int (length (buffer this)))"
  let ?rn = "roundedNeed ?need"
  have "0 \<le> sz \<and> view = take (nat sz) (buffer this') \<and>
        (e \<noteq> Some EOF \<and> e \<noteq> Some ErrUnexpectedEOF) \<and>
        (\<exists>data. buffer this' = buffer this @ data) \<and>
        (delivers rd c \<longrightarrow> buffer this' @ c (reader this') = buffer this @ c (reader this))"
  proof (cases "?need > 0")
    case False
    with assms have "Peek_finish this sz None = Some (Inr (view, e, this'))"
      by (simp add: Peek_def Let_def)
    from Peek_finish_Inr [OF this] show ?thesis by simp
  next
    case True
    with assms have rn: "\<not> make_panics ?rn"
      by (auto simp add: Peek_def Let_def)
    with assms True obtain data err r' where
      pull: "ReadFull rd (reader this) (nat ?rn) = Some (data, err, r')"
      by (auto simp add: Peek_def Let_def split: option.splits)
    with assms True rn have
      fin: "Peek_finish (this\<lparr>reader := r', buffer := buffer this @ data\<rparr>) sz err =
            Some (Inr (view, e, this'))"
      by (auto simp add: Peek_def Let_def split: if_splits)
    from Peek_finish_Inr [OF fin] ReadFull_Some(1) [OF pull, of c]
    show ?thesis by (auto split: if_splits)
  qed
  then show "0 \<le> sz"
    and "view = take (nat sz) (buffer this')"
    and "e \<noteq> Some EOF \<and> e \<noteq> Some ErrUnexpectedEOF"
    and "\<exists>data. buffer this' = buffer this @ data"
    and "delivers rd c \<Longrightarrow> buffer this' @ c (reader this') = buffer this @ c (reader this)"
    by blast+
qed

text \<open>Peek when the pending bytes suffice: no pull.\<close>

lemma Peek_no_pull:
  assumes "0 \<le> sz" "sz \<le> int (length (buffer this))" "int (length (buffer this)) < 2 ^ 63"
  shows "Peek rd this sz = Some (Inr (take (nat sz) (buffer this), None, this))"
proof -
  have "int64 (sz - int (length (buffer this))) = sz - int (length (buffer this))"
    using assms by (intro is_int64_id) (simp add: is_int64_def)
  with assms show ?thesis
    by (simp add: Peek_def Peek_finish_nonneg)
qed

text \<open>Peek when it pulls, for a shortfall that \<^verbatim>\<open>make\<close> accepts.\<close>

lemma Peek_pull:
  assumes "int (length (buffer this)) < sz" "sz - int (length (buffer this)) \<le> maxAlloc"
    and "ReadFull rd (reader this) (nat (roundedNeed (sz - int (length (buffer this))))) = Some (data, err, r')"
    and "length data \<le> nat (roundedNeed (sz - int (length (buffer this))))"
  shows "Peek rd this sz =
     Some (Inr (take (nat sz) (buffer this @ data),
                (if err = Some EOF \<or> err = Some ErrUnexpectedEOF then None else err),
                this\<lparr>reader := r', buffer := buffer this @ data\<rparr>))"
proof -
  let ?need = "sz - int (length (buffer this))"
  have need: "int64 ?need = ?need"
    using assms by (intro is_int64_id) (simp add: is_int64_def maxAlloc_def)
  have "\<not> make_panics (roundedNeed ?need)" using assms by (intro roundedNeed_bounds) simp_all
  moreover have "0 \<le> sz" using assms by simp
  ultimately show ?thesis using assms
    by (simp add: Peek_def need Peek_finish_nonneg)
qed

lemma Peek_overflow:
  assumes "maxAlloc < sz - int (length (buffer this))" "sz - int (length (buffer this)) < 2 ^ 63"
  shows "Peek rd this sz = Some (Inl MakeSliceLen)"
proof -
  let ?need = "sz - int (length (buffer this))"
  have need: "int64 ?need = ?need"
    using assms by (intro is_int64_id) (simp add: is_int64_def maxAlloc_def)
  have "make_panics (roundedNeed ?need)" using assms by (rule roundedNeed_make_panics)
  moreover have "0 < ?need" using assms by (simp add: maxAlloc_def)
  ultimately show ?thesis
    by (simp add: Peek_def need)
qed

lemma Peek_pull_gen:
  assumes "0 \<le> sz" "0 < int64 (sz - int (length (buffer this)))"
    and "\<not> make_panics (roundedNeed (int64 (sz - int (length (buffer this)))))"
    and "ReadFull rd (reader this) (nat (roundedNeed (int64 (sz - int (length (buffer this))))))
           = Some (data, err, r')"
    and "conforming rd"
  shows "Peek rd this sz =
     Some (Inr (take (nat sz) (buffer this @ data),
                (if err = Some EOF \<or> err = Some ErrUnexpectedEOF then None else err),
                this\<lparr>reader := r', buffer := buffer this @ data\<rparr>))"
proof -
  have "length data \<le> nat (roundedNeed (int64 (sz - int (length (buffer this)))))"
    using ReadFull_Some(2) [OF assms(4,5)] .
  with assms show ?thesis
    by (simp add: Peek_def Peek_finish_nonneg)
qed

lemma conforming_bytes_Reader: "conforming bytes_Reader"
  by (simp add: conforming_def bytes_Reader_def)

lemma conforming_broken_Reader: "conforming (broken_Reader e)"
  by (simp add: conforming_def broken_Reader_def)

lemma conforming_ErrorReader: "conforming ErrorReader_Read"
  by (simp add: conforming_def ErrorReader_Read_def)

lemma ErrorReader_ReadFull:
  "0 < n \<Longrightarrow> ReadFull ErrorReader_Read (Some e) n = Some ([], Some e, Some e)"
  unfolding ReadFull_def ReadAtLeast_def
  by (subst ReadAtLeast_loop.simps, subst ReadAtLeast_loop.simps) (simp add: ErrorReader_Read_def)

text \<open>Peek on a bytes.Reader, in closed form.\<close>

lemma Peek_bytes_Reader:
  assumes "int (length b) < sz" "sz - int (length b) \<le> maxAlloc"
  shows "Peek bytes_Reader \<lparr>reader = s, buffer = b\<rparr> sz =
     Some (Inr (take (nat sz) (b @ take (nat (roundedNeed (sz - int (length b)))) s), None,
                \<lparr>reader = drop (nat (roundedNeed (sz - int (length b)))) s,
                 buffer = b @ take (nat (roundedNeed (sz - int (length b)))) s\<rparr>))"
  using assms
    Peek_pull [of "\<lparr>reader = s, buffer = b\<rparr>" sz bytes_Reader
                  "take (nat (roundedNeed (sz - int (length b)))) s" _
                  "drop (nat (roundedNeed (sz - int (length b)))) s"]
  by (simp add: bytes_Reader_ReadFull)

lemma Peek_bytes_Reader_all:
  assumes "int (length b + length s) < sz" "sz - int (length b) \<le> maxAlloc"
  shows "Peek bytes_Reader \<lparr>reader = s, buffer = b\<rparr> sz =
     Some (Inr (b @ s, None, \<lparr>reader = [], buffer = b @ s\<rparr>))"
proof -
  have "sz - int (length b) \<le> roundedNeed (sz - int (length b))"
    using assms by (intro roundedNeed_bounds) simp_all
  with assms have "length s \<le> nat (roundedNeed (sz - int (length b)))" by simp
  moreover have "int (length b) < sz" using assms by simp
  ultimately show ?thesis using assms
    by (simp add: Peek_bytes_Reader)
qed

lemma broken_Reader_ReadFull:
  "e \<noteq> EOF \<Longrightarrow> ReadFull (broken_Reader e) s n =
     Some (take n s, if n \<le> length s then None else Some e, drop n s)"
proof -
  assume e: "e \<noteq> EOF"
  have two: "\<And>acc err. ReadAtLeast_loop (broken_Reader e) n n [] acc err =
      Some (acc, if length acc < n \<and> err = None then Some e else err, [])"
    by (subst ReadAtLeast_loop.simps, subst ReadAtLeast_loop.simps) (simp add: broken_Reader_def)
  show ?thesis
  proof (cases "s = [] \<or> n = 0")
    case True
    then show ?thesis using e
      by (auto simp add: ReadFull_def ReadAtLeast_def two)
        (subst ReadAtLeast_loop.simps, simp)+
  next
    case False
    then have step: "ReadAtLeast_loop (broken_Reader e) n n s [] None =
                ReadAtLeast_loop (broken_Reader e) n n (drop n s) (take n s) None"
      by (subst ReadAtLeast_loop.simps) (simp add: broken_Reader_def)
    show ?thesis
    proof (cases "n \<le> length s")
      case True
      then have "\<not> length (take n s) < n" by simp
      then have "ReadAtLeast_loop (broken_Reader e) n n (drop n s) (take n s) None =
                 Some (take n s, None, drop n s)"
        by (subst ReadAtLeast_loop.simps) simp
      with step True show ?thesis by (simp add: ReadFull_def ReadAtLeast_def)
    next
      case F: False
      then have "drop n s = []" "take n s = s" by simp_all
      with step F False e show ?thesis by (simp add: ReadFull_def ReadAtLeast_def two)
    qed
  qed
qed

lemma Peek_ErrorReader:
  assumes "0 \<le> sz" "sz \<le> maxAlloc"
  shows "Peek ErrorReader_Read (NewPeekBuffer (Some e)) sz =
     Some (Inr ([], if sz = 0 \<or> e = EOF \<or> e = ErrUnexpectedEOF then None else Some e,
                NewPeekBuffer (Some e)))"
proof (cases "sz = 0")
  case True
  then show ?thesis
    using Peek_no_pull [of 0 "NewPeekBuffer (Some e)" ErrorReader_Read]
    by (simp add: NewPeekBuffer_def)
next
  case False
  with assms have "0 < roundedNeed sz" by (intro roundedNeed_bounds) simp_all
  then have "ReadFull ErrorReader_Read (Some e) (nat (roundedNeed sz)) = Some ([], Some e, Some e)"
    by (intro ErrorReader_ReadFull) simp
  with False assms show ?thesis
    using Peek_pull [of "NewPeekBuffer (Some e)" sz ErrorReader_Read "[]" "Some e" "Some e"]
    by (simp add: NewPeekBuffer_def)
qed

section \<open>Read\<close>

text \<open>
  Claim C4. While bytes are pending, \<^verbatim>\<open>Read(p)\<close> copies the first
  \<open>min (len p) (len pending)\<close> of them, removes exactly those from the pending buffer,
  returns them with a nil error and leaves the source alone. With nothing pending, it makes
  one call of the source's \<^verbatim>\<open>Read\<close> with the same \<^verbatim>\<open>p\<close> and returns its bytes and its error
  as they are.
\<close>

theorem Read_case_analysis:
  "(buffer this \<noteq> [] \<longrightarrow>
      (case Read rd this len_p of
         (d, e, this') \<Rightarrow>
           d = take (min len_p (length (buffer this))) (buffer this) \<and>
           length d = min len_p (length (buffer this)) \<and>
           buffer this = d @ buffer this' \<and>
           e = None \<and> reader this' = reader this)) \<and>
   (buffer this = [] \<longrightarrow>
      (case rd (reader this) len_p of
         (d, e, r') \<Rightarrow> Read rd this len_p = (d, e, this\<lparr>reader := r'\<rparr>)))"
  by (simp add: Read_def Let_def split: prod.splits)

theorem Read_case_analysis_witness:
  "buffer \<lparr>reader = [119 :: byte], buffer = [104, 105, 106]\<rparr> \<noteq> [] \<and>
   Read bytes_Reader \<lparr>reader = [119], buffer = [104, 105, 106]\<rparr> 2 =
     ([104, 105], None, \<lparr>reader = [119], buffer = [106]\<rparr>) \<and>
   buffer \<lparr>reader = [104 :: byte, 105], buffer = []\<rparr> = [] \<and>
   Read bytes_Reader \<lparr>reader = [104, 105], buffer = []\<rparr> 1 =
     ([104], None, \<lparr>reader = [105], buffer = []\<rparr>) \<and>
   Read bytes_Reader \<lparr>reader = [], buffer = []\<rparr> 5 =
     ([], Some EOF, \<lparr>reader = [], buffer = []\<rparr>)"
  using Read_case_analysis [where this = "\<lparr>reader = [119], buffer = [104, 105, 106]\<rparr>"
                                 and rd = bytes_Reader and len_p = 2]
    Read_case_analysis [where this = "\<lparr>reader = [104, 105], buffer = []\<rparr>"
                          and rd = bytes_Reader and len_p = 1]
    Read_case_analysis [where this = "\<lparr>reader = [], buffer = []\<rparr>"
                          and rd = bytes_Reader and len_p = 5]
  by (simp add: bytes_Reader_def split: prod.splits)

section \<open>ReadByte\<close>

lemma ReadByte_pending:
  "buffer this \<noteq> [] \<Longrightarrow>
   ReadByte rd this = Some (Inr (hd (buffer this), None, this\<lparr>buffer := tl (buffer this)\<rparr>))"
  by (simp add: ReadByte_def)

lemma ReadByte_pulled:
  assumes "buffer this = []" "conforming rd"
    and "ReadAtLeast rd (reader this) 4096 1 = Some (data, err, r')"
  shows "data \<noteq> [] \<Longrightarrow>
           ReadByte rd this = Some (Inr (hd data, None, this\<lparr>reader := r', buffer := tl data\<rparr>))"
    and "data = [] \<Longrightarrow>
           err \<noteq> None \<and> ReadByte rd this = Some (Inr (0, err, this\<lparr>reader := r'\<rparr>))"
proof -
  from ReadAtLeast_Some(2) [OF assms(3)] assms(2) have len: "length data \<le> 4096" by simp
  show "ReadByte rd this = Some (Inr (hd data, None, this\<lparr>reader := r', buffer := tl data\<rparr>))"
    if "data \<noteq> []"
    using that assms len by (simp add: ReadByte_def FillPeekBufferSize_def)
  show "err \<noteq> None \<and> ReadByte rd this = Some (Inr (0, err, this\<lparr>reader := r'\<rparr>))"
    if "data = []"
    using that assms ReadAtLeast_Some(3) [OF assms(3)]
    by (simp add: ReadByte_def FillPeekBufferSize_def)
qed

lemma ReadByte_bytes_Reader:
  "ReadByte bytes_Reader (NewPeekBuffer s) =
     (if s = [] then Some (Inr (0, Some EOF, NewPeekBuffer []))
      else Some (Inr (hd s, None, \<lparr>reader = drop 4096 s, buffer = tl (take 4096 s)\<rparr>)))"
  by (simp add: ReadByte_def NewPeekBuffer_def FillPeekBufferSize_def bytes_Reader_ReadAtLeast)

text \<open>
  Claim C5. While bytes are pending, \<^verbatim>\<open>ReadByte\<close> returns the first of them with a nil
  error, removes it and leaves the source alone. With nothing pending it pulls with
  \<^verbatim>\<open>io.ReadAtLeast\<close> into a buffer of \<^verbatim>\<open>FillPeekBufferSize\<close> bytes, asking for one byte at
  least. If the pull brought bytes, the first is returned with a nil error and the others
  are kept pending; if it brought none, the zero byte is returned with the error of the
  pull, which is not nil. On a \<^verbatim>\<open>bytes.Reader\<close> the pull takes up to 4096 bytes at once, and
  an empty one gives \<^verbatim>\<open>io.EOF\<close>.
\<close>

theorem ReadByte_cases:
  "(buffer this \<noteq> [] \<longrightarrow>
      ReadByte rd this =
        Some (Inr (hd (buffer this), None, this\<lparr>buffer := tl (buffer this)\<rparr>))) \<and>
   (buffer this = [] \<and> conforming rd \<longrightarrow>
      (\<forall>data err r'.
         ReadAtLeast rd (reader this) 4096 1 = Some (data, err, r') \<longrightarrow>
           (data \<noteq> [] \<longrightarrow>
              ReadByte rd this =
                Some (Inr (hd data, None, this\<lparr>reader := r', buffer := tl data\<rparr>))) \<and>
           (data = [] \<longrightarrow>
              err \<noteq> None \<and>
              ReadByte rd this = Some (Inr (0, err, this\<lparr>reader := r'\<rparr>))))) \<and>
   (s \<noteq> [] \<longrightarrow>
      ReadByte bytes_Reader (NewPeekBuffer s) =
        Some (Inr (hd s, None, \<lparr>reader = drop 4096 s, buffer = tl (take 4096 s)\<rparr>))) \<and>
   ReadByte bytes_Reader (NewPeekBuffer []) =
     Some (Inr (0, Some EOF, NewPeekBuffer []))"
proof -
  have a: "buffer this \<noteq> [] \<longrightarrow>
      ReadByte rd this =
        Some (Inr (hd (buffer this), None, this\<lparr>buffer := tl (buffer this)\<rparr>))"
    by (simp add: ReadByte_pending)
  have b: "buffer this = [] \<and> conforming rd \<longrightarrow>
      (\<forall>data err r'.
         ReadAtLeast rd (reader this) 4096 1 = Some (data, err, r') \<longrightarrow>
           (data \<noteq> [] \<longrightarrow>
              ReadByte rd this =
                Some (Inr (hd data, None, this\<lparr>reader := r', buffer := tl data\<rparr>))) \<and>
           (data = [] \<longrightarrow>
              err \<noteq> None \<and>
              ReadByte rd this = Some (Inr (0, err, this\<lparr>reader := r'\<rparr>))))"
    using ReadByte_pulled [of this rd] by blast
  have c: "s \<noteq> [] \<longrightarrow>
      ReadByte bytes_Reader (NewPeekBuffer s) =
        Some (Inr (hd s, None, \<lparr>reader = drop 4096 s, buffer = tl (take 4096 s)\<rparr>))"
    by (simp add: ReadByte_bytes_Reader)
  have d: "ReadByte bytes_Reader (NewPeekBuffer []) =
     Some (Inr (0, Some EOF, NewPeekBuffer []))"
    by (simp add: ReadByte_bytes_Reader)
  show ?thesis by (intro conjI a b c d)
qed

theorem ReadByte_cases_witness:
  "ReadByte bytes_Reader \<lparr>reader = [108, 111], buffer = [104, 101]\<rparr> =
     Some (Inr (104, None, \<lparr>reader = [108, 111], buffer = [101]\<rparr>)) \<and>
   conforming bytes_Reader \<and>
   ReadAtLeast bytes_Reader [104, 101, 108] 4096 1 = Some ([104, 101, 108], None, []) \<and>
   ReadByte bytes_Reader (NewPeekBuffer [104, 101, 108]) =
     Some (Inr (104, None, \<lparr>reader = [], buffer = [101, 108]\<rparr>)) \<and>
   ReadAtLeast bytes_Reader [] 4096 1 = Some ([], Some EOF, []) \<and>
   ReadByte bytes_Reader (NewPeekBuffer []) = Some (Inr (0, Some EOF, NewPeekBuffer []))"
  using ReadByte_cases [where this = "\<lparr>reader = [108, 111], buffer = [104, 101]\<rparr>"
                          and rd = bytes_Reader and s = "[104, 101, 108]"]
    ReadByte_cases [where this = "NewPeekBuffer [104, 101, 108]"
                      and rd = bytes_Reader and s = "[104, 101, 108]"]
    ReadByte_cases [where this = "NewPeekBuffer []"
                      and rd = bytes_Reader and s = "[104, 101, 108]"]
  by (simp add: conforming_bytes_Reader bytes_Reader_ReadAtLeast NewPeekBuffer_def)

section \<open>Peek: errors and the end of the stream\<close>

text \<open>
  Claim C6. When \<^verbatim>\<open>Peek(size)\<close>, for a size that is not negative, pulls and the pull fails
  with an error other than \<^verbatim>\<open>io.EOF\<close> and \<^verbatim>\<open>io.ErrUnexpectedEOF\<close>, Peek returns that error
  together with the view of the first \<^verbatim>\<open>size\<close> bytes it has, and the bytes the pull
  delivered before it failed stay appended to the pending buffer.
\<close>

theorem Peek_surfaces_other_errors:
  assumes "conforming rd" "0 \<le> sz"
    and "0 < int64 (sz - int (length (buffer this)))"
    and "\<not> make_panics (roundedNeed (int64 (sz - int (length (buffer this)))))"
    and "ReadFull rd (reader this) (nat (roundedNeed (int64 (sz - int (length (buffer this))))))
           = Some (data, Some e, r')"
    and "e \<noteq> EOF" "e \<noteq> ErrUnexpectedEOF"
  shows "Peek rd this sz =
     Some (Inr (take (nat sz) (buffer this @ data), Some e,
                this\<lparr>reader := r', buffer := buffer this @ data\<rparr>))"
  using Peek_pull_gen [OF assms(2,3,4,5,1)] assms(6,7) by simp

theorem Peek_surfaces_other_errors_witness:
  "conforming (broken_Reader (IOFailure ''connection reset'')) \<and>
   (0::int) \<le> 5 \<and>
   0 < int64 (5 - int (length (buffer \<lparr>reader = [108 :: byte, 108], buffer = [104, 101]\<rparr>))) \<and>
   roundedNeed (int64 (5 - int (length (buffer \<lparr>reader = [108 :: byte, 108], buffer = [104, 101]\<rparr>)))) = 4096 \<and>
   ReadFull (broken_Reader (IOFailure ''connection reset'')) [108, 108] 4096 =
     Some ([108, 108], Some (IOFailure ''connection reset''), []) \<and>
   Peek (broken_Reader (IOFailure ''connection reset''))
        \<lparr>reader = [108, 108], buffer = [104, 101]\<rparr> 5 =
     Some (Inr ([104, 101, 108, 108], Some (IOFailure ''connection reset''),
                \<lparr>reader = [], buffer = [104, 101, 108, 108]\<rparr>))"
proof -
  have r: "roundedNeed 3 = 4096"
    by (simp add: roundedNeed_def int64_def quot_def FillPeekBufferSize_def)
  have i: "int64 3 = 3" by (simp add: int64_def)
  have p: "ReadFull (broken_Reader (IOFailure ''connection reset'')) [108, 108] 4096 =
     Some ([108, 108], Some (IOFailure ''connection reset''), [])"
    by (simp add: broken_Reader_ReadFull)
  show ?thesis
    using Peek_surfaces_other_errors
      [where rd = "broken_Reader (IOFailure ''connection reset'')" and sz = 5
         and this = "\<lparr>reader = [108, 108], buffer = [104, 101]\<rparr>"
         and data = "[108, 108]" and e = "IOFailure ''connection reset''" and r' = "[]"]
    by (simp add: conforming_broken_Reader r i p)
qed

text \<open>
  Claim C10. Peek decides by the value of the error alone. No call of Peek returns
  \<^verbatim>\<open>io.EOF\<close> or \<^verbatim>\<open>io.ErrUnexpectedEOF\<close>; whenever the pull ends with one of the two, Peek
  returns a nil error with what it has; and on the test's \<^verbatim>\<open>ErrorReader\<close>, whose only
  behaviour is to fail with \<^verbatim>\<open>io.ErrUnexpectedEOF\<close> and no byte, Peek reports success with
  an empty view.
\<close>

theorem Peek_error_classification:
  "(\<forall>view err this'. Peek rd this sz = Some (Inr (view, err, this')) \<longrightarrow>
      err \<noteq> Some EOF \<and> err \<noteq> Some ErrUnexpectedEOF) \<and>
   (conforming rd \<and> 0 \<le> sz \<and>
    0 < int64 (sz - int (length (buffer this))) \<and>
    \<not> make_panics (roundedNeed (int64 (sz - int (length (buffer this))))) \<and>
    ReadFull rd (reader this) (nat (roundedNeed (int64 (sz - int (length (buffer this))))))
      = Some (data, Some e, r') \<and>
    (e = EOF \<or> e = ErrUnexpectedEOF) \<longrightarrow>
      Peek rd this sz =
        Some (Inr (take (nat sz) (buffer this @ data), None,
                   this\<lparr>reader := r', buffer := buffer this @ data\<rparr>))) \<and>
   (0 \<le> sz \<and> sz \<le> maxAlloc \<longrightarrow>
      Peek ErrorReader_Read (NewPeekBuffer (Some ErrUnexpectedEOF)) sz =
        Some (Inr ([], None, NewPeekBuffer (Some ErrUnexpectedEOF))))"
proof -
  have a: "\<forall>view err this'. Peek rd this sz = Some (Inr (view, err, this')) \<longrightarrow>
      err \<noteq> Some EOF \<and> err \<noteq> Some ErrUnexpectedEOF"
    using Peek_Inr(3) by blast
  have b: "conforming rd \<and> 0 \<le> sz \<and>
    0 < int64 (sz - int (length (buffer this))) \<and>
    \<not> make_panics (roundedNeed (int64 (sz - int (length (buffer this))))) \<and>
    ReadFull rd (reader this) (nat (roundedNeed (int64 (sz - int (length (buffer this))))))
      = Some (data, Some e, r') \<and>
    (e = EOF \<or> e = ErrUnexpectedEOF) \<longrightarrow>
      Peek rd this sz =
        Some (Inr (take (nat sz) (buffer this @ data), None,
                   this\<lparr>reader := r', buffer := buffer this @ data\<rparr>))"
    using Peek_pull_gen [of sz this rd data "Some e" r'] by auto
  have c: "0 \<le> sz \<and> sz \<le> maxAlloc \<longrightarrow>
      Peek ErrorReader_Read (NewPeekBuffer (Some ErrUnexpectedEOF)) sz =
        Some (Inr ([], None, NewPeekBuffer (Some ErrUnexpectedEOF)))"
    by (simp add: Peek_ErrorReader)
  show ?thesis by (intro conjI a b c)
qed

theorem Peek_error_classification_witness:
  "Peek ErrorReader_Read (NewPeekBuffer (Some ErrUnexpectedEOF)) 5 =
     Some (Inr ([], None, NewPeekBuffer (Some ErrUnexpectedEOF))) \<and>
   ReadFull ErrorReader_Read (Some ErrUnexpectedEOF) 4096 =
     Some ([], Some ErrUnexpectedEOF, Some ErrUnexpectedEOF) \<and>
   Read ErrorReader_Read (NewPeekBuffer (Some ErrUnexpectedEOF)) 5 =
     ([], Some ErrUnexpectedEOF, NewPeekBuffer (Some ErrUnexpectedEOF)) \<and>
   Peek bytes_Reader (NewPeekBuffer [104, 105]) 5 =
     Some (Inr ([104, 105], None, \<lparr>reader = [], buffer = [104, 105]\<rparr>)) \<and>
   ReadFull bytes_Reader [104, 105] 4096 = Some ([104, 105], Some ErrUnexpectedEOF, []) \<and>
   Peek (broken_Reader (IOFailure ''timeout'')) (NewPeekBuffer [104, 105]) 5 =
     Some (Inr ([104, 105], Some (IOFailure ''timeout''), \<lparr>reader = [], buffer = [104, 105]\<rparr>)) \<and>
   IOFailure ''timeout'' \<noteq> EOF \<and> IOFailure ''timeout'' \<noteq> ErrUnexpectedEOF"
proof -
  have r: "roundedNeed 5 = 4096"
    by (simp add: roundedNeed_def int64_def quot_def FillPeekBufferSize_def)
  have i: "int64 5 = 5" by (simp add: int64_def)
  have p: "Peek (broken_Reader (IOFailure ''timeout'')) (NewPeekBuffer [104, 105]) 5 =
     Some (Inr ([104, 105], Some (IOFailure ''timeout''), \<lparr>reader = [], buffer = [104, 105]\<rparr>))"
    using Peek_pull [of "NewPeekBuffer [104, 105]" 5 "broken_Reader (IOFailure ''timeout'')"
        "[104, 105]" "Some (IOFailure ''timeout'')" "[]"]
    by (simp add: NewPeekBuffer_def r broken_Reader_ReadFull)
  show ?thesis
    using Peek_error_classification
      [where rd = ErrorReader_Read and sz = 5
         and this = "NewPeekBuffer (Some ErrUnexpectedEOF)"
         and data = "[]" and e = ErrUnexpectedEOF and r' = "Some ErrUnexpectedEOF"]
      Peek_error_classification
      [where rd = bytes_Reader and sz = 5
         and this = "NewPeekBuffer [104, 105]"
         and data = "[104, 105]" and e = ErrUnexpectedEOF and r' = "[]"]
      Peek_error_classification
      [where rd = "broken_Reader (IOFailure ''timeout'')" and sz = 5
         and this = "NewPeekBuffer [104, 105]"]
    by (simp add: NewPeekBuffer_def r i p [unfolded NewPeekBuffer_def] conforming_bytes_Reader conforming_ErrorReader
        bytes_Reader_ReadFull ErrorReader_ReadFull Read_def ErrorReader_Read_def)
qed

text \<open>
  Claim C2, as stated, for every size beyond the length of the source: it fails for the
  sizes whose shortfall, rounded up to a multiple of \<^verbatim>\<open>FillPeekBufferSize\<close>, is more than
  \<^verbatim>\<open>make\<close> gives: above \<^verbatim>\<open>maxAlloc\<close> (the first such size over two bytes is \<open>2^48 + 1\<close>), or
  negative after the rounding overflowed \<^verbatim>\<open>int\<close> (as at the largest \<^verbatim>\<open>int\<close>). There \<^verbatim>\<open>make\<close>
  panics and Peek returns nothing.
\<close>

theorem Peek_end_of_stream_counterexample:
  "int (length [104 :: byte, 105]) < 281474976710657 \<and>
   is_int64 281474976710657 \<and>
   Peek bytes_Reader (NewPeekBuffer [104, 105]) 281474976710657 = Some (Inl MakeSliceLen) \<and>
   int (length [104 :: byte, 105]) < 9223372036854775807 \<and>
   is_int64 9223372036854775807 \<and>
   Peek bytes_Reader (NewPeekBuffer [104, 105]) 9223372036854775807 = Some (Inl MakeSliceLen)"
  using Peek_overflow [where this = "NewPeekBuffer [104, 105]" and sz = 9223372036854775807
                         and rd = bytes_Reader]
    Peek_overflow [where this = "NewPeekBuffer [104, 105]" and sz = 281474976710657
                         and rd = bytes_Reader]
  by (simp add: NewPeekBuffer_def is_int64_def)

text \<open>
  Claim C2, amended. On a fresh PeekBuffer over a \<^verbatim>\<open>bytes.Reader\<close> of \<open>L\<close> bytes, every
  size beyond \<open>L\<close> and up to \<^verbatim>\<open>maxAlloc\<close> (\<open>2^48\<close>) gives a view of exactly the \<open>L\<close> bytes
  and a nil error; the same holds from any state of the buffer, for the bytes pending and
  left in the source together, when the shortfall \<open>size - len(buffer)\<close> is at most
  \<^verbatim>\<open>maxAlloc\<close>; for any source, when \<^verbatim>\<open>make\<close> does not panic, a pull that ends with \<^verbatim>\<open>io.EOF\<close>
  or \<^verbatim>\<open>io.ErrUnexpectedEOF\<close> before the size is reached gives the view of all the bytes
  there are, with a nil error; and no call of Peek returns one of these two errors.
\<close>

theorem Peek_end_of_stream:
  "(int (length s) < sz \<and> sz \<le> maxAlloc \<longrightarrow>
      Peek bytes_Reader (NewPeekBuffer s) sz =
        Some (Inr (s, None, \<lparr>reader = [], buffer = s\<rparr>))) \<and>
   (int (length b + length s) < sz \<and> sz - int (length b) \<le> maxAlloc \<longrightarrow>
      Peek bytes_Reader \<lparr>reader = s, buffer = b\<rparr> sz =
        Some (Inr (b @ s, None, \<lparr>reader = [], buffer = b @ s\<rparr>))) \<and>
   (conforming rd \<and> 0 \<le> sz \<and>
    0 < int64 (sz - int (length (buffer this))) \<and>
    \<not> make_panics (roundedNeed (int64 (sz - int (length (buffer this))))) \<and>
    ReadFull rd (reader this) (nat (roundedNeed (int64 (sz - int (length (buffer this))))))
      = Some (data, Some e, r') \<and>
    (e = EOF \<or> e = ErrUnexpectedEOF) \<and>
    int (length (buffer this @ data)) < sz \<longrightarrow>
      Peek rd this sz =
        Some (Inr (buffer this @ data, None,
                   this\<lparr>reader := r', buffer := buffer this @ data\<rparr>))) \<and>
   (\<forall>view err this'. Peek rd this sz = Some (Inr (view, err, this')) \<longrightarrow>
      err \<noteq> Some EOF \<and> err \<noteq> Some ErrUnexpectedEOF)"
proof -
  have a: "int (length s) < sz \<and> sz \<le> maxAlloc \<longrightarrow>
      Peek bytes_Reader (NewPeekBuffer s) sz =
        Some (Inr (s, None, \<lparr>reader = [], buffer = s\<rparr>))"
    using Peek_bytes_Reader_all [where b = "[]" and s = s and sz = sz] by (simp add: NewPeekBuffer_def)
  have b: "int (length b + length s) < sz \<and> sz - int (length b) \<le> maxAlloc \<longrightarrow>
      Peek bytes_Reader \<lparr>reader = s, buffer = b\<rparr> sz =
        Some (Inr (b @ s, None, \<lparr>reader = [], buffer = b @ s\<rparr>))"
    using Peek_bytes_Reader_all [where b = b and s = s and sz = sz] by simp
  have c: "conforming rd \<and> 0 \<le> sz \<and>
    0 < int64 (sz - int (length (buffer this))) \<and>
    \<not> make_panics (roundedNeed (int64 (sz - int (length (buffer this))))) \<and>
    ReadFull rd (reader this) (nat (roundedNeed (int64 (sz - int (length (buffer this))))))
      = Some (data, Some e, r') \<and>
    (e = EOF \<or> e = ErrUnexpectedEOF) \<and>
    int (length (buffer this @ data)) < sz \<longrightarrow>
      Peek rd this sz =
        Some (Inr (buffer this @ data, None,
                   this\<lparr>reader := r', buffer := buffer this @ data\<rparr>))"
    using Peek_pull_gen [where sz = sz and this = this and rd = rd and data = data and err = "Some e" and r' = r'] by auto
  have d: "\<forall>view err this'. Peek rd this sz = Some (Inr (view, err, this')) \<longrightarrow>
      err \<noteq> Some EOF \<and> err \<noteq> Some ErrUnexpectedEOF"
    using Peek_Inr(3) by blast
  show ?thesis by (intro conjI a b c d)
qed

theorem Peek_end_of_stream_witness:
  "int (length [104 :: byte, 101, 108, 108, 111]) < 9 \<and> (9 :: int) \<le> maxAlloc \<and>
   Peek bytes_Reader (NewPeekBuffer [104, 101, 108, 108, 111]) 9 =
     Some (Inr ([104, 101, 108, 108, 111], None,
                \<lparr>reader = [], buffer = [104, 101, 108, 108, 111]\<rparr>)) \<and>
   Peek bytes_Reader \<lparr>reader = [108, 111], buffer = [104, 101, 108]\<rparr> 9 =
     Some (Inr ([104, 101, 108, 108, 111], None,
                \<lparr>reader = [], buffer = [104, 101, 108, 108, 111]\<rparr>)) \<and>
   ReadFull bytes_Reader [108, 111] 4096 = Some ([108, 111], Some ErrUnexpectedEOF, []) \<and>
   Peek bytes_Reader (NewPeekBuffer []) 5 = Some (Inr ([], None, \<lparr>reader = [], buffer = []\<rparr>)) \<and>
   ReadFull bytes_Reader [] 4096 = Some ([], Some EOF, [])"
proof -
  have r: "roundedNeed 6 = 4096" "roundedNeed 5 = 4096"
    by (simp_all add: roundedNeed_def int64_def quot_def FillPeekBufferSize_def)
  have i: "int64 6 = 6" "int64 5 = 5" by (simp_all add: int64_def)
  show ?thesis
    using Peek_end_of_stream
        [where s = "[104, 101, 108, 108, 111]" and sz = 9 and b = "[]"
           and rd = bytes_Reader and this = "\<lparr>reader = [108, 111], buffer = [104, 101, 108]\<rparr>"
           and data = "[108, 111]" and e = ErrUnexpectedEOF and r' = "[]"]
      Peek_end_of_stream
        [where s = "[108, 111]" and sz = 9 and b = "[104, 101, 108]"
           and rd = bytes_Reader and this = "NewPeekBuffer []"]
      Peek_end_of_stream
        [where s = "[]" and sz = 5 and b = "[]"
           and rd = bytes_Reader and this = "NewPeekBuffer []"]
    by (simp add: NewPeekBuffer_def r i conforming_bytes_Reader bytes_Reader_ReadFull)
qed

section \<open>PeekByte\<close>

lemma PeekByte_nonneg:
  assumes "0 \<le> offset"
  shows "PeekByte rd this offset =
     (case Peek rd this (int64 (offset + 1)) of
        None \<Rightarrow> None
      | Some (Inl p) \<Rightarrow> Some (Inl p)
      | Some (Inr (peeked, err, this')) \<Rightarrow>
          if err \<noteq> None then Some (Inr (0, err, this'))
          else if int (length peeked) < offset + 1 then Some (Inr (0, Some EOF, this'))
          else Some (Inr (peeked ! nat offset, None, this')))"
  using assms by (auto simp add: PeekByte_def split: option.splits sum.splits)

lemma PeekByte_unfold:
  assumes "0 \<le> offset" "offset < 2 ^ 63 - 1"
  shows "PeekByte rd this offset =
     (case Peek rd this (offset + 1) of
        None \<Rightarrow> None
      | Some (Inl p) \<Rightarrow> Some (Inl p)
      | Some (Inr (peeked, err, this')) \<Rightarrow>
          if err \<noteq> None then Some (Inr (0, err, this'))
          else if int (length peeked) < offset + 1 then Some (Inr (0, Some EOF, this'))
          else Some (Inr (peeked ! nat offset, None, this')))"
proof -
  have "int64 (offset + 1) = offset + 1"
    using assms by (intro is_int64_id) (simp add: is_int64_def)
  with assms show ?thesis
    by (auto simp add: PeekByte_def split: option.splits sum.splits)
qed

lemma PeekByte_bytes_Reader_beyond:
  assumes "int (length s) \<le> offset" "offset \<le> maxAlloc - 1"
  shows "PeekByte bytes_Reader (NewPeekBuffer s) offset =
           Some (Inr (0, Some EOF, \<lparr>reader = [], buffer = s\<rparr>))"
proof -
  have "Peek bytes_Reader (NewPeekBuffer s) (offset + 1) =
          Some (Inr (s, None, \<lparr>reader = [], buffer = s\<rparr>))"
    using assms Peek_bytes_Reader_all [where b = "[]" and s = s and sz = "offset + 1"]
    by (simp add: NewPeekBuffer_def)
  moreover have "0 \<le> offset" "offset < 2 ^ 63 - 1" using assms by simp_all
  ultimately show ?thesis using assms by (simp add: PeekByte_unfold)
qed

lemma PeekByte_bytes_Reader_last:
  assumes "s \<noteq> []" "int (length s) \<le> maxAlloc"
  shows "PeekByte bytes_Reader (NewPeekBuffer s) (int (length s) - 1) =
           Some (Inr (last s, None, \<lparr>reader = [], buffer = s\<rparr>))"
proof -
  let ?rn = "nat (roundedNeed (int (length s)))"
  have pos: "0 < int (length s)" using assms by simp
  have "int (length s) \<le> roundedNeed (int (length s))"
    using pos assms by (intro roundedNeed_bounds) simp_all
  then have rn: "length s \<le> ?rn" by simp
  have "Peek bytes_Reader (NewPeekBuffer s) (int (length s)) =
          Some (Inr (s, None, \<lparr>reader = [], buffer = s\<rparr>))"
    using pos assms rn Peek_bytes_Reader [where b = "[]" and s = s and sz = "int (length s)"]
    by (simp add: NewPeekBuffer_def)
  moreover have "0 \<le> int (length s) - 1" "int (length s) - 1 < 2 ^ 63 - 1"
    using pos assms by simp_all
  moreover have "s ! nat (int (length s) - 1) = last s"
    using assms by (simp add: last_conv_nth nat_diff_distrib')
  ultimately show ?thesis
    using PeekByte_unfold [where offset = "int (length s) - 1" and rd = bytes_Reader
        and this = "NewPeekBuffer s"]
    by simp
qed

text \<open>
  Claim C7, as stated, for an offset at the length of the source or anywhere beyond: it
  fails from the offset \<open>2^48\<close> on, where the shortfall of \<^verbatim>\<open>Peek(offset + 1)\<close> is above
  \<^verbatim>\<open>maxAlloc\<close> and \<^verbatim>\<open>make\<close> panics, and at the top of the range of \<^verbatim>\<open>int\<close>, where
  \<^verbatim>\<open>offset + 1\<close> wraps around to a negative size and Peek panics in \<^verbatim>\<open>this.buffer[:have]\<close>.
\<close>

theorem PeekByte_boundary_counterexample:
  "int (length [104 :: byte]) \<le> 281474976710656 \<and>
   is_int64 281474976710656 \<and>
   PeekByte bytes_Reader (NewPeekBuffer [104]) 281474976710656 = Some (Inl MakeSliceLen) \<and>
   int (length [104 :: byte]) \<le> 9223372036854775807 \<and>
   is_int64 9223372036854775807 \<and>
   PeekByte bytes_Reader (NewPeekBuffer [104]) 9223372036854775807 = Some (Inl SliceBounds)"
proof -
  have "Peek bytes_Reader (NewPeekBuffer [104]) 281474976710657 = Some (Inl MakeSliceLen)"
    using Peek_overflow [where this = "NewPeekBuffer [104]" and sz = 281474976710657
                           and rd = bytes_Reader]
    by (simp add: NewPeekBuffer_def)
  then have "PeekByte bytes_Reader (NewPeekBuffer [104]) 281474976710656 =
      Some (Inl MakeSliceLen)"
    by (simp add: PeekByte_def int64_def)
  moreover have "PeekByte bytes_Reader (NewPeekBuffer [104]) 9223372036854775807 =
      Some (Inl SliceBounds)"
    by (simp add: PeekByte_def Peek_def Peek_finish_def NewPeekBuffer_def int64_def)
  ultimately show ?thesis by (simp add: is_int64_def)
qed

text \<open>
  Claim C7, amended. For an offset that is not negative, \<^verbatim>\<open>PeekByte(offset)\<close> calls
  \<^verbatim>\<open>Peek(offset + 1)\<close>, the sum taken in \<^verbatim>\<open>int\<close> (it is \<open>offset + 1\<close> below the largest
  \<^verbatim>\<open>int\<close>); a panic of Peek is a panic of PeekByte; an error of Peek is returned with the
  zero byte; a view shorter than \<open>offset + 1\<close> gives \<^verbatim>\<open>io.EOF\<close> although Peek returned no
  error; otherwise the byte at the offset is returned. On a fresh PeekBuffer over a
  \<^verbatim>\<open>bytes.Reader\<close> of \<open>L\<close> bytes, an offset from \<open>L\<close> up to \<open>maxAlloc - 1\<close> (\<open>2^48 - 1\<close>)
  gives \<^verbatim>\<open>io.EOF\<close>, and, for \<open>0 < L \<le> maxAlloc\<close>, the offset \<open>L - 1\<close> gives the last byte.
\<close>

theorem PeekByte_cases:
  "(0 \<le> offset \<longrightarrow>
      PeekByte rd this offset =
        (case Peek rd this (int64 (offset + 1)) of
           None \<Rightarrow> None
         | Some (Inl p) \<Rightarrow> Some (Inl p)
         | Some (Inr (peeked, err, this')) \<Rightarrow>
             if err \<noteq> None then Some (Inr (0, err, this'))
             else if int (length peeked) < offset + 1 then Some (Inr (0, Some EOF, this'))
             else Some (Inr (peeked ! nat offset, None, this')))) \<and>
   (0 \<le> offset \<and> offset < 2 ^ 63 - 1 \<longrightarrow> int64 (offset + 1) = offset + 1) \<and>
   (int (length s) \<le> offset \<and> offset \<le> maxAlloc - 1 \<longrightarrow>
      PeekByte bytes_Reader (NewPeekBuffer s) offset =
        Some (Inr (0, Some EOF, \<lparr>reader = [], buffer = s\<rparr>))) \<and>
   (s \<noteq> [] \<and> int (length s) \<le> maxAlloc \<longrightarrow>
      PeekByte bytes_Reader (NewPeekBuffer s) (int (length s) - 1) =
        Some (Inr (last s, None, \<lparr>reader = [], buffer = s\<rparr>)))"
proof -
  have "int64 (offset + 1) = offset + 1" if "0 \<le> offset" "offset < 2 ^ 63 - 1"
    using that by (intro is_int64_id) (simp add: is_int64_def)
  then show ?thesis
    using PeekByte_nonneg [of offset rd this] PeekByte_bytes_Reader_beyond [of s offset]
      PeekByte_bytes_Reader_last [of s]
    by blast
qed

theorem PeekByte_cases_witness:
  "PeekByte bytes_Reader (NewPeekBuffer [104, 101, 108, 108, 111]) 4 =
     Some (Inr (111, None, \<lparr>reader = [], buffer = [104, 101, 108, 108, 111]\<rparr>)) \<and>
   PeekByte bytes_Reader (NewPeekBuffer [104, 101, 108, 108, 111]) 5 =
     Some (Inr (0, Some EOF, \<lparr>reader = [], buffer = [104, 101, 108, 108, 111]\<rparr>)) \<and>
   PeekByte bytes_Reader (NewPeekBuffer [104, 101, 108, 108, 111]) 1 =
     Some (Inr (101, None, \<lparr>reader = [], buffer = [104, 101, 108, 108, 111]\<rparr>)) \<and>
   Peek bytes_Reader (NewPeekBuffer [104, 101, 108, 108, 111]) (1 + 1) =
     Some (Inr ([104, 101], None, \<lparr>reader = [], buffer = [104, 101, 108, 108, 111]\<rparr>)) \<and>
   PeekByte (broken_Reader (IOFailure ''timeout'')) (NewPeekBuffer [104, 105]) 3 =
     Some (Inr (0, Some (IOFailure ''timeout''), \<lparr>reader = [], buffer = [104, 105]\<rparr>))"
proof -
  have r: "roundedNeed 2 = 4096" "roundedNeed 4 = 4096" "roundedNeed 6 = 4096"
    by (simp_all add: roundedNeed_def int64_def quot_def FillPeekBufferSize_def)
  have p: "Peek bytes_Reader (NewPeekBuffer [104, 101, 108, 108, 111]) 2 =
     Some (Inr ([104, 101], None, \<lparr>reader = [], buffer = [104, 101, 108, 108, 111]\<rparr>))"
    using Peek_bytes_Reader [where b = "[]" and s = "[104, 101, 108, 108, 111]" and sz = 2]
    by (simp add: NewPeekBuffer_def r)
  have p6: "Peek bytes_Reader (NewPeekBuffer [104, 101, 108, 108, 111]) 6 =
     Some (Inr ([104, 101, 108, 108, 111], None,
                \<lparr>reader = [], buffer = [104, 101, 108, 108, 111]\<rparr>))"
    using Peek_bytes_Reader [where b = "[]" and s = "[104, 101, 108, 108, 111]" and sz = 6]
    by (simp add: NewPeekBuffer_def r)
  have q: "Peek (broken_Reader (IOFailure ''timeout'')) (NewPeekBuffer [104, 105]) 4 =
     Some (Inr ([104, 105], Some (IOFailure ''timeout''), \<lparr>reader = [], buffer = [104, 105]\<rparr>))"
    using Peek_pull [where this = "NewPeekBuffer [104, 105]" and sz = 4
        and rd = "broken_Reader (IOFailure ''timeout'')"
        and data = "[104, 105]" and err = "Some (IOFailure ''timeout'')" and r' = "[]"]
    by (simp add: NewPeekBuffer_def r broken_Reader_ReadFull)
  show ?thesis
    using PeekByte_cases [where s = "[104, 101, 108, 108, 111]" and offset = 5
        and rd = bytes_Reader and this = "NewPeekBuffer [104, 101, 108, 108, 111]"]
      PeekByte_cases [where s = "[104, 101, 108, 108, 111]" and offset = 1
        and rd = bytes_Reader and this = "NewPeekBuffer [104, 101, 108, 108, 111]"]
      PeekByte_cases [where s = "[104, 101, 108, 108, 111]" and offset = 3
        and rd = "broken_Reader (IOFailure ''timeout'')" and this = "NewPeekBuffer [104, 105]"]
    by (simp add: p p6 q)
qed

section \<open>Panics\<close>

text \<open>
  A byte slice is never longer than \<^verbatim>\<open>maxAlloc\<close>; the facts below take the pending buffer
  so. A negative size makes Peek panic: in \<^verbatim>\<open>this.buffer[:have]\<close> when
  \<open>size - len(buffer)\<close> is an \<^verbatim>\<open>int\<close>, and in \<^verbatim>\<open>make\<close> when it wraps around, for then the
  shortfall is above \<^verbatim>\<open>maxAlloc\<close>.
\<close>

lemma Peek_neg_panics:
  assumes "sz < 0" "- (2 ^ 63) \<le> sz - int (length (buffer this))"
  shows "Peek rd this sz = Some (Inl SliceBounds)"
proof -
  have "int64 (sz - int (length (buffer this))) = sz - int (length (buffer this))"
    using assms by (intro is_int64_id) (simp add: is_int64_def)
  with assms show ?thesis by (simp add: Peek_def Peek_finish_neg)
qed

lemma Peek_neg_wraps:
  assumes "is_int64 sz" "int (length (buffer this)) \<le> maxAlloc"
    and "sz - int (length (buffer this)) < - (2 ^ 63)"
  shows "Peek rd this sz = Some (Inl MakeSliceLen)"
proof -
  let ?x = "sz - int (length (buffer this))"
  have need: "int64 ?x = ?x + 2 ^ 64"
    using assms by (intro int64_below) (simp_all add: is_int64_def)
  have "make_panics (roundedNeed (?x + 2 ^ 64))"
    using assms by (intro roundedNeed_make_panics) (simp_all add: is_int64_def)
  moreover have "0 < ?x + 2 ^ 64" using assms by (simp add: is_int64_def)
  ultimately show ?thesis
    by (simp add: Peek_def need del: make_panics_def)
qed

lemma Peek_neg:
  assumes "is_int64 sz" "sz < 0" "int (length (buffer this)) \<le> maxAlloc"
  shows "Peek rd this sz =
     Some (Inl (if - (2 ^ 63) \<le> sz - int (length (buffer this)) then SliceBounds
                else MakeSliceLen))"
  using assms Peek_neg_panics [of sz this rd] Peek_neg_wraps [of sz this rd]
  by (simp del: maxAlloc_def)

lemma PeekByte_neg:
  assumes "is_int64 offset" "offset < 0" "int (length (buffer this)) \<le> maxAlloc"
  shows "PeekByte rd this offset =
     Some (Inl (if offset = - 1 then IndexRange
                else if - (2 ^ 63) \<le> offset + 1 - int (length (buffer this)) then SliceBounds
                else MakeSliceLen))"
proof (cases "offset = - 1")
  case True
  have "Peek rd this 0 = Some (Inr (take (nat 0) (buffer this), None, this))"
    using assms(3) by (intro Peek_no_pull) simp_all
  with True show ?thesis by (simp add: PeekByte_def int64_def)
next
  case False
  with assms have i: "is_int64 (offset + 1)" "offset + 1 < 0" by (simp_all add: is_int64_def)
  then have "int64 (offset + 1) = offset + 1" by (intro is_int64_id)
  with False Peek_neg [OF i assms(3), of rd] show ?thesis
    by (simp add: PeekByte_def del: maxAlloc_def)
qed

lemma Peek_no_panic:
  assumes "conforming rd" "0 \<le> sz" "int (length (buffer this)) \<le> maxAlloc"
    and "sz - int (length (buffer this)) \<le> maxAlloc"
  shows "Peek rd this sz \<noteq> Some (Inl p)"
proof (cases "sz \<le> int (length (buffer this))")
  case True
  with assms show ?thesis by (simp add: Peek_no_pull)
next
  case False
  let ?rn = "nat (roundedNeed (sz - int (length (buffer this))))"
  show ?thesis
  proof (cases "ReadFull rd (reader this) ?rn")
    case None
    have "int64 (sz - int (length (buffer this))) = sz - int (length (buffer this))"
      using assms False by (intro is_int64_id) (simp add: is_int64_def)
    moreover have "\<not> make_panics (roundedNeed (sz - int (length (buffer this))))"
      using assms False by (intro roundedNeed_bounds) simp_all
    ultimately show ?thesis using None False by (simp add: Peek_def del: make_panics_def)
  next
    case (Some y)
    obtain data err r' where y: "y = (data, err, r')" by (cases y) auto
    from Some y ReadFull_Some(2) [of rd "reader this" ?rn data err r'] assms(1)
    have "length data \<le> ?rn" by simp
    with Some y False assms show ?thesis
      using Peek_pull [where this = this and sz = sz and rd = rd and data = data
          and err = err and r' = r']
      by simp
  qed
qed

lemma PeekByte_no_panic:
  assumes "conforming rd" "0 \<le> offset" "int (length (buffer this)) \<le> maxAlloc"
    and "offset + 1 - int (length (buffer this)) \<le> maxAlloc"
  shows "PeekByte rd this offset \<noteq> Some (Inl p)"
proof -
  have "offset < 2 ^ 63 - 1" using assms by simp
  with assms Peek_no_panic [where rd = rd and sz = "offset + 1" and this = this]
  show ?thesis
    by (auto simp add: PeekByte_unfold simp del: maxAlloc_def split: option.splits sum.splits)
qed

text \<open>
  Claim C9, as stated. That no call with a size or an offset that is not negative panics
  fails where the rounded shortfall is above \<^verbatim>\<open>maxAlloc\<close> or overflows \<^verbatim>\<open>int\<close> (\<^verbatim>\<open>make\<close>
  panics), and at the largest offset, where \<^verbatim>\<open>offset + 1\<close> wraps around. That a negative
  size always panics in \<^verbatim>\<open>this.buffer[:have]\<close> fails where \<open>size - len(buffer)\<close> wraps around:
  the panic is then the one of \<^verbatim>\<open>make\<close>.
\<close>

theorem no_panic_counterexample:
  "(0 :: int) \<le> 281474976710657 \<and> is_int64 281474976710657 \<and>
   Peek bytes_Reader (NewPeekBuffer [104]) 281474976710657 = Some (Inl MakeSliceLen) \<and>
   (0 :: int) \<le> 281474976710656 \<and>
   PeekByte bytes_Reader (NewPeekBuffer [104]) 281474976710656 = Some (Inl MakeSliceLen) \<and>
   (0 :: int) \<le> 9223372036854775807 \<and> is_int64 9223372036854775807 \<and>
   PeekByte bytes_Reader (NewPeekBuffer []) 9223372036854775807 = Some (Inl SliceBounds) \<and>
   is_int64 (- 9223372036854775808) \<and>
   Peek bytes_Reader \<lparr>reader = [], buffer = [104]\<rparr> (- 9223372036854775808) =
     Some (Inl MakeSliceLen)"
proof -
  have a: "Peek bytes_Reader (NewPeekBuffer [104]) 281474976710657 = Some (Inl MakeSliceLen)"
    using Peek_overflow [where this = "NewPeekBuffer [104]" and sz = 281474976710657
                           and rd = bytes_Reader]
    by (simp add: NewPeekBuffer_def)
  have b: "PeekByte bytes_Reader (NewPeekBuffer [104]) 281474976710656 = Some (Inl MakeSliceLen)"
    using a by (simp add: PeekByte_def int64_def)
  have c: "PeekByte bytes_Reader (NewPeekBuffer []) 9223372036854775807 = Some (Inl SliceBounds)"
    by (simp add: NewPeekBuffer_def PeekByte_def Peek_def Peek_finish_def int64_def)
  have d: "Peek bytes_Reader \<lparr>reader = [], buffer = [104]\<rparr> (- 9223372036854775808) =
     Some (Inl MakeSliceLen)"
    using Peek_neg_wraps [where this = "\<lparr>reader = [], buffer = [104]\<rparr>"
                            and sz = "- 9223372036854775808" and rd = bytes_Reader]
    by (simp add: is_int64_def)
  show ?thesis using a b c d by (simp add: is_int64_def)
qed

text \<open>
  Claim C9, amended. With a pending buffer of at most \<^verbatim>\<open>maxAlloc\<close> bytes, as every byte slice
  is: a call of Peek with a negative size panics, in \<^verbatim>\<open>this.buffer[:have]\<close> with
  \<open>have = size\<close>, or in \<^verbatim>\<open>make\<close> when \<open>size - len(buffer)\<close> wraps around; \<^verbatim>\<open>PeekByte(-1)\<close>
  panics in \<^verbatim>\<open>peeked[offset]\<close>, and \<^verbatim>\<open>PeekByte(offset)\<close> with \<open>offset \<le> -2\<close> panics inside
  \<^verbatim>\<open>Peek(offset + 1)\<close>. With a source that keeps the contract of \<^verbatim>\<open>io.Reader\<close>, Peek does not
  panic for a size that is not negative and a shortfall \<open>size - len(buffer)\<close> of at most
  \<^verbatim>\<open>maxAlloc\<close>, and neither does PeekByte for an offset that is not negative and a
  shortfall \<open>offset + 1 - len(buffer)\<close> of at most \<^verbatim>\<open>maxAlloc\<close>.
\<close>

theorem Peek_PeekByte_panics:
  "(is_int64 sz \<and> sz < 0 \<and> int (length (buffer this)) \<le> maxAlloc \<longrightarrow>
      Peek rd this sz =
        Some (Inl (if - (2 ^ 63) \<le> sz - int (length (buffer this)) then SliceBounds
                   else MakeSliceLen))) \<and>
   (is_int64 offset \<and> offset < 0 \<and> int (length (buffer this)) \<le> maxAlloc \<longrightarrow>
      PeekByte rd this offset =
        Some (Inl (if offset = - 1 then IndexRange
                   else if - (2 ^ 63) \<le> offset + 1 - int (length (buffer this))
                     then SliceBounds
                   else MakeSliceLen))) \<and>
   (conforming rd \<and> 0 \<le> sz \<and> int (length (buffer this)) \<le> maxAlloc \<and>
    sz - int (length (buffer this)) \<le> maxAlloc \<longrightarrow>
      (\<forall>p. Peek rd this sz \<noteq> Some (Inl p))) \<and>
   (conforming rd \<and> 0 \<le> offset \<and> int (length (buffer this)) \<le> maxAlloc \<and>
    offset + 1 - int (length (buffer this)) \<le> maxAlloc \<longrightarrow>
      (\<forall>p. PeekByte rd this offset \<noteq> Some (Inl p)))"
  using Peek_neg [of sz this rd] PeekByte_neg [of offset this rd]
    Peek_no_panic [of rd sz this] PeekByte_no_panic [of rd offset this]
  by blast

theorem Peek_PeekByte_panics_witness:
  "Peek bytes_Reader (NewPeekBuffer [104, 105]) (- 3) = Some (Inl SliceBounds) \<and>
   PeekByte bytes_Reader (NewPeekBuffer [104, 105]) (- 1) = Some (Inl IndexRange) \<and>
   PeekByte bytes_Reader (NewPeekBuffer [104, 105]) (- 2) = Some (Inl SliceBounds) \<and>
   Peek bytes_Reader \<lparr>reader = [105], buffer = [104]\<rparr> (- 9223372036854775808) =
     Some (Inl MakeSliceLen) \<and>
   conforming bytes_Reader \<and>
   Peek bytes_Reader (NewPeekBuffer [104, 105]) 7 =
     Some (Inr ([104, 105], None, \<lparr>reader = [], buffer = [104, 105]\<rparr>)) \<and>
   PeekByte bytes_Reader (NewPeekBuffer [104, 105]) 1 =
     Some (Inr (105, None, \<lparr>reader = [], buffer = [104, 105]\<rparr>))"
proof -
  have r: "roundedNeed 7 = 4096" "roundedNeed 2 = 4096"
    by (simp_all add: roundedNeed_def int64_def quot_def FillPeekBufferSize_def)
  have p: "Peek bytes_Reader \<lparr>reader = [104, 105], buffer = []\<rparr> 7 =
     Some (Inr ([104, 105], None, \<lparr>reader = [], buffer = [104, 105]\<rparr>))"
    using Peek_bytes_Reader [where b = "[]" and s = "[104, 105]" and sz = 7]
    by (simp add: r)
  have p2: "Peek bytes_Reader \<lparr>reader = [104, 105], buffer = []\<rparr> 2 =
     Some (Inr ([104, 105], None, \<lparr>reader = [], buffer = [104, 105]\<rparr>))"
    using Peek_bytes_Reader [where b = "[]" and s = "[104, 105]" and sz = 2]
    by (simp add: r)
  have q: "PeekByte bytes_Reader \<lparr>reader = [104, 105], buffer = []\<rparr> 1 =
     Some (Inr (105, None, \<lparr>reader = [], buffer = [104, 105]\<rparr>))"
    using PeekByte_unfold [where offset = 1 and rd = bytes_Reader
        and this = "\<lparr>reader = [104, 105], buffer = []\<rparr>"]
    by (simp add: p2)
  show ?thesis
    using Peek_PeekByte_panics [where sz = "- 3" and offset = "- 2" and rd = bytes_Reader
        and this = "NewPeekBuffer [104, 105]"]
      Peek_PeekByte_panics [where sz = "- 3" and offset = "- 1" and rd = bytes_Reader
        and this = "NewPeekBuffer [104, 105]"]
      Peek_PeekByte_panics [where sz = "- 9223372036854775808" and offset = "- 1"
        and rd = bytes_Reader and this = "\<lparr>reader = [105], buffer = [104]\<rparr>"]
      Peek_PeekByte_panics [where sz = 7 and offset = 1 and rd = bytes_Reader
        and this = "NewPeekBuffer [104, 105]"]
    by (simp add: NewPeekBuffer_def conforming_bytes_Reader p q is_int64_def)
qed

section \<open>Sequential equivalence\<close>

lemma delivers_bytes_Reader: "delivers bytes_Reader (\<lambda>s. s)"
  by (simp add: delivers_def bytes_Reader_def)

lemma Read_stream:
  assumes "delivers rd c" "Read rd this len_p = (d, e, this')"
  shows "d @ buffer this' @ c (reader this') = buffer this @ c (reader this)"
proof (cases "buffer this = []")
  case True
  with assms(2) have "d = fst (rd (reader this) len_p)"
    "reader this' = snd (snd (rd (reader this) len_p))" "buffer this' = []"
    by (auto simp add: Read_def split: prod.splits)
  with assms(1) True show ?thesis by (simp add: delivers_def)
next
  case False
  with assms(2) show ?thesis by (auto simp add: Read_def Let_def)
qed

lemma ReadByte_stream:
  assumes "delivers rd c" "ReadByte rd this = Some (Inr (b, e, this'))"
  shows "(if e = None then [b] else []) @ buffer this' @ c (reader this') =
         buffer this @ c (reader this)"
proof (cases "buffer this = []")
  case False
  with assms(2) show ?thesis by (cases "buffer this") (auto simp add: ReadByte_def)
next
  case True
  with assms(2) obtain data err r' where
    p: "ReadAtLeast rd (reader this) (nat FillPeekBufferSize) 1 = Some (data, err, r')"
    by (auto simp add: ReadByte_def split: option.splits)
  from ReadAtLeast_Some(1) [OF p, of c] assms(1)
  have s: "c (reader this) = data @ c r'" by simp
  from ReadAtLeast_Some(3) [OF p] have n: "err = None \<longleftrightarrow> data \<noteq> []"
    by (cases data) simp_all
  show ?thesis
  proof (cases "data = []")
    case d: True
    with assms(2) True p n s show ?thesis by (auto simp add: ReadByte_def)
  next
    case d: False
    with assms(2) True p n s show ?thesis
      by (cases data) (auto simp add: ReadByte_def split: if_splits)
  qed
qed

lemma PeekByte_stream:
  assumes "delivers rd c" "PeekByte rd this offset = Some (Inr (b, e, this'))"
  shows "buffer this' @ c (reader this') = buffer this @ c (reader this)"
proof -
  from assms(2) obtain view err where
    "Peek rd this (int64 (offset + 1)) = Some (Inr (view, err, this'))"
    by (auto simp add: PeekByte_def split: option.splits sum.splits if_splits)
  from Peek_Inr(5) [OF this assms(1)] show ?thesis .
qed

lemma returned_Inr:
  "returned d rest = Some (Inr (out, t)) \<longleftrightarrow> (\<exists>out'. rest = Some (Inr (out', t)) \<and> out = d @ out')"
  by (auto simp add: returned_def split: option.splits sum.splits)

lemma run_stream:
  assumes "delivers rd c" "run rd this cs = Some (Inr (out, this'))"
  shows "out @ buffer this' @ c (reader this') = buffer this @ c (reader this)"
  using assms(2)
proof (induction cs arbitrary: this out)
  case Nil
  then show ?case by simp
next
  case (Cons x cs)
  show ?case
  proof (cases x)
    case (Call_Read len_p)
    obtain d e t where r: "Read rd this len_p = (d, e, t)" by (cases "Read rd this len_p") auto
    with Cons.prems Call_Read obtain out' where
      o: "run rd t cs = Some (Inr (out', this'))" "out = d @ out'"
      by (auto simp add: returned_Inr)
    from Cons.IH [OF o(1)] Read_stream [OF assms(1) r] o(2) show ?thesis by simp
  next
    case Call_ReadByte
    with Cons.prems obtain b e t where r: "ReadByte rd this = Some (Inr (b, e, t))"
      by (auto split: option.splits sum.splits)
    with Cons.prems Call_ReadByte obtain out' where
      o: "run rd t cs = Some (Inr (out', this'))" "out = (if e = None then [b] else []) @ out'"
      by (auto simp add: returned_Inr)
    from Cons.IH [OF o(1)] ReadByte_stream [OF assms(1) r] o(2) show ?thesis by simp
  next
    case (Call_Peek sz)
    with Cons.prems obtain v e t where r: "Peek rd this sz = Some (Inr (v, e, t))"
      by (auto split: option.splits sum.splits)
    with Cons.prems Call_Peek have o: "run rd t cs = Some (Inr (out, this'))" by simp
    from Cons.IH [OF o] Peek_Inr(5) [OF r assms(1)] show ?thesis by simp
  next
    case (Call_PeekByte offset)
    with Cons.prems obtain b e t where r: "PeekByte rd this offset = Some (Inr (b, e, t))"
      by (auto split: option.splits sum.splits)
    with Cons.prems Call_PeekByte have o: "run rd t cs = Some (Inr (out, this'))" by simp
    from Cons.IH [OF o] PeekByte_stream [OF assms(1) r] show ?thesis by simp
  qed
qed

text \<open>
  Claim C1. Take a source that delivers the content \<open>S\<close> (a \<^verbatim>\<open>bytes.Reader\<close> over \<open>S\<close>, or
  any reader that hands out \<open>S\<close> piece by piece), a fresh PeekBuffer on it and any sequence
  of calls of \<^verbatim>\<open>Read\<close>, \<^verbatim>\<open>ReadByte\<close>, \<^verbatim>\<open>Peek\<close> and \<^verbatim>\<open>PeekByte\<close> that runs to its end. The bytes
  returned by the consuming calls, concatenated, are a prefix of \<open>S\<close>, followed in \<open>S\<close> by
  the bytes pending and the bytes left in the source; when the calls have consumed
  \<open>len S\<close> bytes, the concatenation is \<open>S\<close>, however the calls are cut.
\<close>

theorem sequential_equivalence:
  "delivers rd content \<and> run rd (NewPeekBuffer r) cs = Some (Inr (out, this')) \<longrightarrow>
     prefix out (content r) \<and>
     content r = out @ buffer this' @ content (reader this') \<and>
     (length out = length (content r) \<longrightarrow> out = content r)"
proof (intro impI, elim conjE)
  assume d: "delivers rd content" and r: "run rd (NewPeekBuffer r) cs = Some (Inr (out, this'))"
  from run_stream [OF d r]
  have s: "content r = out @ buffer this' @ content (reader this')"
    by (simp add: NewPeekBuffer_def)
  then have "prefix out (content r)" by (metis prefixI)
  moreover have "out = content r" if "length out = length (content r)"
    using s that by (metis append_eq_append_conv append_Nil2)
  ultimately show "prefix out (content r) \<and>
     content r = out @ buffer this' @ content (reader this') \<and>
     (length out = length (content r) \<longrightarrow> out = content r)"
    using s by blast
qed

lemma Peek_eval:
  "Peek bytes_Reader \<lparr>reader = s, buffer = b\<rparr> (numeral k) =
   (if numeral k \<le> int (length b) \<and> int (length b) < 2 ^ 63
    then Some (Inr (take (numeral k) b, None, \<lparr>reader = s, buffer = b\<rparr>))
    else if int (length b) < numeral k \<and> numeral k - int (length b) \<le> maxAlloc
    then Some (Inr (take (numeral k) (b @ take (nat (roundedNeed (numeral k - int (length b)))) s), None,
                \<lparr>reader = drop (nat (roundedNeed (numeral k - int (length b)))) s,
                 buffer = b @ take (nat (roundedNeed (numeral k - int (length b)))) s\<rparr>))
    else Peek bytes_Reader \<lparr>reader = s, buffer = b\<rparr> (numeral k))"
  using Peek_no_pull [where this = "\<lparr>reader = s, buffer = b\<rparr>" and sz = "numeral k" and rd = bytes_Reader]
    Peek_bytes_Reader [where s = s and b = b and sz = "numeral k"]
  by simp

theorem sequential_equivalence_witness:
  "delivers bytes_Reader (\<lambda>s. s) \<and>
   run bytes_Reader (NewPeekBuffer [104, 101, 108, 108, 111, 32, 119, 111, 114, 108, 100])
     [Call_Peek 5, Call_Read 6, Call_ReadByte, Call_PeekByte 1, Call_Read 512, Call_Read 512] =
     Some (Inr ([104, 101, 108, 108, 111, 32, 119, 111, 114, 108, 100],
                \<lparr>reader = [], buffer = []\<rparr>)) \<and>
   run bytes_Reader (NewPeekBuffer [104, 101, 108, 108, 111, 32, 119, 111, 114, 108, 100])
     [Call_Read 3, Call_ReadByte, Call_Peek 20, Call_ReadByte, Call_Read 2, Call_Read 4] =
     Some (Inr ([104, 101, 108, 108, 111, 32, 119, 111, 114, 108, 100],
                \<lparr>reader = [], buffer = []\<rparr>))"
proof -
  have r: "roundedNeed 5 = 4096" "roundedNeed 20 = 4096"
    by (simp_all add: roundedNeed_def int64_def quot_def FillPeekBufferSize_def)
  have i: "int64 2 = 2" by (simp add: int64_def)
  have a: "run bytes_Reader (NewPeekBuffer [104, 101, 108, 108, 111, 32, 119, 111, 114, 108, 100])
     [Call_Peek 5, Call_Read 6, Call_ReadByte, Call_PeekByte 1, Call_Read 512, Call_Read 512] =
     Some (Inr ([104, 101, 108, 108, 111, 32, 119, 111, 114, 108, 100],
                \<lparr>reader = [], buffer = []\<rparr>))"
    by (simp add: NewPeekBuffer_def Peek_eval r i Read_def ReadByte_def PeekByte_def
        returned_def bytes_Reader_def)
  have b: "run bytes_Reader (NewPeekBuffer [104, 101, 108, 108, 111, 32, 119, 111, 114, 108, 100])
     [Call_Read 3, Call_ReadByte, Call_Peek 20, Call_ReadByte, Call_Read 2, Call_Read 4] =
     Some (Inr ([104, 101, 108, 108, 111, 32, 119, 111, 114, 108, 100],
                \<lparr>reader = [], buffer = []\<rparr>))"
    by (simp add: NewPeekBuffer_def Peek_eval r i Read_def ReadByte_def PeekByte_def
        returned_def bytes_Reader_def bytes_Reader_ReadAtLeast FillPeekBufferSize_def)
  show ?thesis
    using sequential_equivalence [where rd = bytes_Reader and content = "\<lambda>s. s"
        and r = "[104, 101, 108, 108, 111, 32, 119, 111, 114, 108, 100]"
        and cs = "[Call_Peek 5, Call_Read 6, Call_ReadByte, Call_PeekByte 1, Call_Read 512, Call_Read 512]"
        and out = "[104, 101, 108, 108, 111, 32, 119, 111, 114, 108, 100]"
        and this' = "\<lparr>reader = [], buffer = []\<rparr>"]
    by (simp only: delivers_bytes_Reader a b simp_thms)
qed

section \<open>Peek does not advance\<close>

lemma Peek_view_prefix:
  assumes "Peek rd this sz = Some (Inr (view, e, this'))"
  shows "prefix view (buffer this')" and "prefix (buffer this) (buffer this')"
  using Peek_Inr(2,4) [OF assms] by (auto simp add: take_is_prefix)

lemma peeks_prefix:
  assumes "peeks rd this szs = Some (Inr (views, this'))"
  shows "prefix (buffer this) (buffer this') \<and> (\<forall>v \<in> set views. prefix v (buffer this'))"
  using assms
proof (induction szs arbitrary: this views)
  case Nil
  then show ?case by simp
next
  case (Cons sz szs)
  from Cons.prems obtain v e t where p: "Peek rd this sz = Some (Inr (v, e, t))"
    by (auto split: option.splits sum.splits)
  with Cons.prems obtain vs where
    r: "peeks rd t szs = Some (Inr (vs, this'))" and views: "views = v # vs"
    by (auto split: option.splits sum.splits)
  from Cons.IH [OF r] Peek_view_prefix [OF p] views show ?case
    by (auto intro: prefix_order.trans)
qed

lemma Peek_twice:
  assumes "Peek rd this a = Some (Inr (v1, e1, this1))"
    and "Peek rd this1 b = Some (Inr (v2, e2, this2))" and "a < b"
  shows "prefix v1 v2" and "length v1 = nat a \<Longrightarrow> take (nat a) v2 = v1"
proof -
  from Peek_Inr(2,4) [OF assms(2)] obtain d where
    v2: "v2 = take (nat b) (buffer this1 @ d)" by auto
  from Peek_Inr(1,2) [OF assms(1)] have v1: "v1 = take (nat a) (buffer this1)" and a: "0 \<le> a"
    by auto
  from a assms(3) have ab: "nat a \<le> nat b" by simp
  have t: "take (nat a) v2 = take (nat a) (buffer this1 @ d)"
    using ab by (simp add: v2 min_def)
  have "prefix (take (nat a) (buffer this1)) (take (nat a) (buffer this1 @ d))"
    by simp
  moreover have "prefix (take (nat a) (buffer this1 @ d)) (take (nat b) (buffer this1 @ d))"
    using ab by (metis min.absorb1 take_is_prefix take_take)
  ultimately show p: "prefix v1 v2"
    unfolding v1 v2 by (rule prefix_order.trans)
  show "take (nat a) v2 = v1" if "length v1 = nat a"
    using that p by (metis append_eq_conv_conj prefix_def)
qed

lemma Read_prefix_stream:
  assumes "delivers rd c"
  shows "prefix (fst (Read rd this n)) (buffer this @ c (reader this))"
proof -
  obtain d e t where r: "Read rd this n = (d, e, t)" by (cases "Read rd this n") auto
  from Read_stream [OF assms r] r show ?thesis by (metis fst_conv prefixI)
qed

lemma Read_after_Peek:
  assumes "delivers rd c" "Peek rd this sz = Some (Inr (v, e, this'))"
  shows "prefix (fst (Read rd this' n)) (fst (Read rd this n)) \<or>
         prefix (fst (Read rd this n)) (fst (Read rd this' n))"
proof -
  from Peek_Inr(5) [OF assms(2,1)]
  have "buffer this' @ c (reader this') = buffer this @ c (reader this)" .
  with Read_prefix_stream [OF assms(1), of this' n] Read_prefix_stream [OF assms(1), of this n]
  show ?thesis by (metis prefix_same_cases)
qed

lemma Read_after_Peek_pending:
  assumes "Peek rd this sz = Some (Inr (v, e, this'))" "buffer this \<noteq> []"
    "n \<le> length (buffer this)"
  shows "fst (Read rd this' n) = fst (Read rd this n)"
    and "fst (snd (Read rd this' n)) = fst (snd (Read rd this n))"
  using Peek_Inr(4) [OF assms(1)] assms(2,3) by (auto simp add: Read_def Let_def)

lemma Peek_bytes_Reader_short_rec:
  assumes "Peek bytes_Reader \<lparr>reader = s, buffer = b\<rparr> sz = Some (Inr (v, e, t))"
    and "sz < 2 ^ 63" "int (length b) < 2 ^ 63"
  shows "length v = nat sz \<or> reader t = []"
proof -
  from Peek_Inr(1) [OF assms(1)] have sz: "0 \<le> sz" .
  show ?thesis
  proof (cases "sz \<le> int (length b)")
    case True
    with sz assms show ?thesis by (auto simp add: Peek_no_pull)
  next
    case False
    let ?need = "sz - int (length b)"
    have small: "?need \<le> maxAlloc"
    proof (rule ccontr)
      assume "\<not> ?need \<le> maxAlloc"
      with assms(2) have "Peek bytes_Reader \<lparr>reader = s, buffer = b\<rparr> sz = Some (Inl MakeSliceLen)"
        by (intro Peek_overflow) simp_all
      with assms(1) show False by simp
    qed
    let ?rn = "nat (roundedNeed ?need)"
    from False small have rn: "?need \<le> roundedNeed ?need"
      by (intro roundedNeed_bounds) simp_all
    have "Peek bytes_Reader \<lparr>reader = s, buffer = b\<rparr> sz =
        Some (Inr (take (nat sz) (b @ take ?rn s), None,
                \<lparr>reader = drop ?rn s, buffer = b @ take ?rn s\<rparr>))"
      using False small by (intro Peek_bytes_Reader) simp_all
    with assms(1) have v: "v = take (nat sz) (b @ take ?rn s)"
      and t: "reader t = drop ?rn s" by auto
    show ?thesis
    proof (cases "?rn \<le> length s")
      case True
      with rn sz False have "nat sz \<le> length (b @ take ?rn s)"
        by simp
      with v have "length v = nat sz" by (simp only: length_take min_absorb2)
      then show ?thesis ..
    next
      case False
      with t show ?thesis by simp
    qed
  qed
qed

lemma Peek_bytes_Reader_short:
  assumes "Peek bytes_Reader this sz = Some (Inr (v, e, t))"
    and "sz < 2 ^ 63" "int (length (buffer this)) < 2 ^ 63"
  shows "length v = nat sz \<or> reader t = []"
  using assms Peek_bytes_Reader_short_rec [of "reader this" "buffer this" sz v e t]
  by (cases this) simp

lemma Peek_bytes_Reader_exhausted:
  assumes "Peek bytes_Reader this sz = Some (Inr (v, e, t))" "reader this = []"
  shows "buffer t = buffer this"
proof (cases "0 < int64 (sz - int (length (buffer this)))")
  case False
  with assms(1) have "Peek_finish this sz None = Some (Inr (v, e, t))"
    by (simp add: Peek_def)
  from Peek_finish_Inr [OF this] show ?thesis by simp
next
  case True
  let ?rn = "roundedNeed (int64 (sz - int (length (buffer this))))"
  from True assms(1) have rn: "\<not> make_panics ?rn" by (auto simp add: Peek_def Let_def)
  have "ReadFull bytes_Reader (reader this) (nat ?rn) =
          Some ([], if nat ?rn \<le> 0 then None else Some EOF, [])"
    using assms(2) by (simp add: bytes_Reader_ReadFull)
  with True rn assms have "Peek_finish (this\<lparr>reader := [], buffer := buffer this\<rparr>) sz
      (if nat ?rn \<le> 0 then None else Some EOF) = Some (Inr (v, e, t))"
    by (simp add: Peek_def Let_def)
  from Peek_finish_Inr [OF this] show ?thesis by simp
qed

lemma Peek_twice_bytes_Reader:
  assumes "Peek bytes_Reader this a = Some (Inr (v1, e1, this1))"
    and "Peek bytes_Reader this1 b = Some (Inr (v2, e2, this2))"
    and "a < b" "b < 2 ^ 63" "int (length (buffer this)) < 2 ^ 63"
  shows "take (nat a) v2 = v1"
proof -
  from Peek_bytes_Reader_short [OF assms(1) _ assms(5)] assms(3,4)
  consider "length v1 = nat a" | "reader this1 = []" by auto
  then show ?thesis
  proof cases
    case 1
    then show ?thesis by (rule Peek_twice(2) [OF assms(1,2,3)])
  next
    case 2
    from Peek_bytes_Reader_exhausted [OF assms(2) 2] have "buffer this2 = buffer this1" .
    with Peek_Inr(1,2) [OF assms(1)] Peek_Inr(2) [OF assms(2)] assms(3)
    show ?thesis by (simp add: min_def)
  qed
qed

text \<open>
  Claim C3, as stated, in its last part, that a Peek that succeeds does not change what
  the next \<^verbatim>\<open>Read\<close> returns: on a \<^verbatim>\<open>bytes.Reader\<close> of 5000 bytes, \<^verbatim>\<open>Read\<close> into 5000 bytes
  returns all 5000, and after \<^verbatim>\<open>Peek(1)\<close>, which has pulled 4096 bytes into the pending
  buffer, it returns these 4096.
\<close>

theorem Peek_then_Read_counterexample:
  "Peek bytes_Reader (NewPeekBuffer (replicate 5000 0)) 1 =
     Some (Inr ([0], None,
                \<lparr>reader = replicate 904 0, buffer = replicate 4096 0\<rparr>)) \<and>
   Read bytes_Reader \<lparr>reader = replicate 904 0, buffer = replicate 4096 0\<rparr> 5000 =
     (replicate 4096 0, None, \<lparr>reader = replicate 904 0, buffer = []\<rparr>) \<and>
   Read bytes_Reader (NewPeekBuffer (replicate 5000 0)) 5000 =
     (replicate 5000 0, None, \<lparr>reader = [], buffer = []\<rparr>) \<and>
   length (fst (Read bytes_Reader \<lparr>reader = replicate 904 0, buffer = replicate 4096 0\<rparr> 5000))
     \<noteq> length (fst (Read bytes_Reader (NewPeekBuffer (replicate 5000 0)) 5000))"
proof -
  have r: "roundedNeed 1 = 4096"
    by (simp add: roundedNeed_def int64_def quot_def FillPeekBufferSize_def)
  have t: "take (Suc 0) (replicate 4096 (0 :: byte)) = [0]"
    by (simp add: take_Suc_conv_app_nth)
  have a: "Peek bytes_Reader (NewPeekBuffer (replicate 5000 0)) 1 =
     Some (Inr ([0], None, \<lparr>reader = replicate 904 0, buffer = replicate 4096 0\<rparr>))"
    using Peek_bytes_Reader [where b = "[]" and s = "replicate 5000 0" and sz = 1]
    by (simp add: NewPeekBuffer_def r t)
  have b: "Read bytes_Reader \<lparr>reader = replicate 904 0, buffer = replicate 4096 0\<rparr> 5000 =
     (replicate 4096 0, None, \<lparr>reader = replicate 904 0, buffer = []\<rparr>)"
    by (simp add: Read_def)
  have c: "Read bytes_Reader (NewPeekBuffer (replicate 5000 0)) 5000 =
     (replicate 5000 0, None, \<lparr>reader = [], buffer = []\<rparr>)"
    by (simp add: Read_def NewPeekBuffer_def bytes_Reader_def)
  show ?thesis unfolding a b c by simp
qed

text \<open>
  Claim C3, amended. Calls of Peek in a row never remove a byte from the pending buffer, and
  any two of the views they return agree on the length they share: one is a prefix of the
  other. After \<^verbatim>\<open>Peek(a)\<close> then \<^verbatim>\<open>Peek(b)\<close> with \<open>a < b\<close>, the second view begins with the first,
  and its first \<open>a\<close> bytes are the first view when the first view has \<open>a\<close> bytes, and on a
  \<^verbatim>\<open>bytes.Reader\<close> always. A Peek that returns leaves the bytes still to come (pending, then
  the rest of the source) as they were, so the bytes the next \<^verbatim>\<open>Read\<close> returns after the
  Peek and those it would have returned without it agree on the length they share; they
  are the same, with the same error, when the bytes asked for were pending before the Peek.
  Their count may differ.
\<close>

theorem Peek_non_advancement:
  "(peeks rd this szs = Some (Inr (views, this')) \<longrightarrow>
      prefix (buffer this) (buffer this') \<and>
      (\<forall>v \<in> set views. \<forall>w \<in> set views. prefix v w \<or> prefix w v)) \<and>
   (a < b \<and> Peek rd this a = Some (Inr (va, ea, this_a)) \<and>
    Peek rd this_a b = Some (Inr (vb, eb, this_b)) \<longrightarrow>
      prefix (buffer this) (buffer this_a) \<and> prefix (buffer this_a) (buffer this_b) \<and>
      prefix va vb \<and> (length va = nat a \<longrightarrow> take (nat a) vb = va)) \<and>
   (a < b \<and> b < 2 ^ 63 \<and> int (length (buffer pb)) < 2 ^ 63 \<and>
    Peek bytes_Reader pb a = Some (Inr (va, ea, pb_a)) \<and>
    Peek bytes_Reader pb_a b = Some (Inr (vb, eb, pb_b)) \<longrightarrow>
      take (nat a) vb = va) \<and>
   (delivers rd content \<and> Peek rd this a = Some (Inr (va, ea, this_a)) \<longrightarrow>
      buffer this_a @ content (reader this_a) = buffer this @ content (reader this) \<and>
      (prefix (fst (Read rd this_a n)) (fst (Read rd this n)) \<or>
       prefix (fst (Read rd this n)) (fst (Read rd this_a n)))) \<and>
   (Peek rd this a = Some (Inr (va, ea, this_a)) \<and> buffer this \<noteq> [] \<and>
    n \<le> length (buffer this) \<longrightarrow>
      fst (Read rd this_a n) = fst (Read rd this n) \<and>
      fst (snd (Read rd this_a n)) = fst (snd (Read rd this n)))"
proof -
  have p1: "peeks rd this szs = Some (Inr (views, this')) \<longrightarrow>
      prefix (buffer this) (buffer this') \<and>
      (\<forall>v \<in> set views. \<forall>w \<in> set views. prefix v w \<or> prefix w v)"
    using peeks_prefix [of rd this szs views this'] by (meson prefix_same_cases)
  have p2: "a < b \<and> Peek rd this a = Some (Inr (va, ea, this_a)) \<and>
    Peek rd this_a b = Some (Inr (vb, eb, this_b)) \<longrightarrow>
      prefix (buffer this) (buffer this_a) \<and> prefix (buffer this_a) (buffer this_b) \<and>
      prefix va vb \<and> (length va = nat a \<longrightarrow> take (nat a) vb = va)"
    using Peek_view_prefix(2) [of rd this a va ea this_a]
      Peek_view_prefix(2) [of rd this_a b vb eb this_b]
      Peek_twice [of rd this a va ea this_a b vb eb this_b]
    by blast
  have p3: "a < b \<and> b < 2 ^ 63 \<and> int (length (buffer pb)) < 2 ^ 63 \<and>
    Peek bytes_Reader pb a = Some (Inr (va, ea, pb_a)) \<and>
    Peek bytes_Reader pb_a b = Some (Inr (vb, eb, pb_b)) \<longrightarrow>
      take (nat a) vb = va"
    using Peek_twice_bytes_Reader [of pb a va ea pb_a b vb eb pb_b] by blast
  have p4: "delivers rd content \<and> Peek rd this a = Some (Inr (va, ea, this_a)) \<longrightarrow>
      buffer this_a @ content (reader this_a) = buffer this @ content (reader this) \<and>
      (prefix (fst (Read rd this_a n)) (fst (Read rd this n)) \<or>
       prefix (fst (Read rd this n)) (fst (Read rd this_a n)))"
    using Peek_Inr(5) [of rd this a va ea this_a content]
      Read_after_Peek [of rd content this a va ea this_a n]
    by blast
  have p5: "Peek rd this a = Some (Inr (va, ea, this_a)) \<and> buffer this \<noteq> [] \<and>
    n \<le> length (buffer this) \<longrightarrow>
      fst (Read rd this_a n) = fst (Read rd this n) \<and>
      fst (snd (Read rd this_a n)) = fst (snd (Read rd this n))"
    using Read_after_Peek_pending [of rd this a va ea this_a n] by blast
  show ?thesis by (intro conjI p1 p2 p3 p4 p5)
qed

theorem Peek_non_advancement_witness:
  "peeks bytes_Reader (NewPeekBuffer [104, 101, 108, 108, 111, 32, 119, 111, 114, 108, 100])
     [5, 3, 11] =
     Some (Inr ([[104, 101, 108, 108, 111], [104, 101, 108],
                 [104, 101, 108, 108, 111, 32, 119, 111, 114, 108, 100]],
                \<lparr>reader = [], buffer = [104, 101, 108, 108, 111, 32, 119, 111, 114, 108, 100]\<rparr>)) \<and>
   Peek bytes_Reader (NewPeekBuffer [104, 101, 108, 108, 111, 32, 119, 111, 114, 108, 100]) 2 =
     Some (Inr ([104, 101], None,
                \<lparr>reader = [], buffer = [104, 101, 108, 108, 111, 32, 119, 111, 114, 108, 100]\<rparr>)) \<and>
   Peek bytes_Reader \<lparr>reader = [], buffer = [104, 101, 108, 108, 111, 32, 119, 111, 114, 108, 100]\<rparr> 5 =
     Some (Inr ([104, 101, 108, 108, 111], None,
                \<lparr>reader = [], buffer = [104, 101, 108, 108, 111, 32, 119, 111, 114, 108, 100]\<rparr>)) \<and>
   take (nat 2) [104 :: byte, 101, 108, 108, 111] = [104, 101] \<and>
   delivers bytes_Reader (\<lambda>s. s) \<and>
   fst (Read bytes_Reader (NewPeekBuffer [104, 101, 108, 108, 111, 32, 119, 111, 114, 108, 100]) 6) =
     [104, 101, 108, 108, 111, 32] \<and>
   fst (Read bytes_Reader \<lparr>reader = [], buffer = [104, 101, 108, 108, 111, 32, 119, 111, 114, 108, 100]\<rparr> 6) =
     [104, 101, 108, 108, 111, 32] \<and>
   Peek bytes_Reader \<lparr>reader = [108, 111], buffer = [104, 101]\<rparr> 4 =
     Some (Inr ([104, 101, 108, 111], None, \<lparr>reader = [], buffer = [104, 101, 108, 111]\<rparr>)) \<and>
   Read bytes_Reader \<lparr>reader = [108, 111], buffer = [104, 101]\<rparr> 2 =
     ([104, 101], None, \<lparr>reader = [108, 111], buffer = []\<rparr>) \<and>
   Read bytes_Reader \<lparr>reader = [], buffer = [104, 101, 108, 111]\<rparr> 2 =
     ([104, 101], None, \<lparr>reader = [], buffer = [108, 111]\<rparr>)"
proof -
  have r: "roundedNeed 5 = 4096" "roundedNeed 2 = 4096"
    by (simp_all add: roundedNeed_def int64_def quot_def FillPeekBufferSize_def)
  have a: "peeks bytes_Reader (NewPeekBuffer [104, 101, 108, 108, 111, 32, 119, 111, 114, 108, 100])
     [5, 3, 11] =
     Some (Inr ([[104, 101, 108, 108, 111], [104, 101, 108],
                 [104, 101, 108, 108, 111, 32, 119, 111, 114, 108, 100]],
                \<lparr>reader = [], buffer = [104, 101, 108, 108, 111, 32, 119, 111, 114, 108, 100]\<rparr>))"
    by (simp add: NewPeekBuffer_def Peek_eval r)
  have b: "Peek bytes_Reader (NewPeekBuffer [104, 101, 108, 108, 111, 32, 119, 111, 114, 108, 100]) 2 =
     Some (Inr ([104, 101], None,
                \<lparr>reader = [], buffer = [104, 101, 108, 108, 111, 32, 119, 111, 114, 108, 100]\<rparr>))"
    by (simp add: NewPeekBuffer_def Peek_eval r)
  have c: "Peek bytes_Reader \<lparr>reader = [], buffer = [104, 101, 108, 108, 111, 32, 119, 111, 114, 108, 100]\<rparr> 5 =
     Some (Inr ([104, 101, 108, 108, 111], None,
                \<lparr>reader = [], buffer = [104, 101, 108, 108, 111, 32, 119, 111, 114, 108, 100]\<rparr>))"
    by (simp add: Peek_eval)
  have d: "fst (Read bytes_Reader (NewPeekBuffer [104, 101, 108, 108, 111, 32, 119, 111, 114, 108, 100]) 6) =
     [104, 101, 108, 108, 111, 32]"
    "fst (Read bytes_Reader \<lparr>reader = [], buffer = [104, 101, 108, 108, 111, 32, 119, 111, 114, 108, 100]\<rparr> 6) =
     [104, 101, 108, 108, 111, 32]"
    by (simp_all add: Read_def NewPeekBuffer_def bytes_Reader_def)
  have e: "take (nat 2) [104 :: byte, 101, 108, 108, 111] = [104, 101]" by simp
  have f: "Peek bytes_Reader \<lparr>reader = [108, 111], buffer = [104, 101]\<rparr> 4 =
     Some (Inr ([104, 101, 108, 111], None, \<lparr>reader = [], buffer = [104, 101, 108, 111]\<rparr>))"
    by (simp add: Peek_eval r)
  have g: "Read bytes_Reader \<lparr>reader = [108, 111], buffer = [104, 101]\<rparr> 2 =
     ([104, 101], None, \<lparr>reader = [108, 111], buffer = []\<rparr>)"
    "Read bytes_Reader \<lparr>reader = [], buffer = [104, 101, 108, 111]\<rparr> 2 =
     ([104, 101], None, \<lparr>reader = [], buffer = [108, 111]\<rparr>)"
    by (simp_all add: Read_def)
  note pending = Peek_non_advancement
      [where rd = bytes_Reader and this = "\<lparr>reader = [108, 111], buffer = [104, 101]\<rparr>"
         and a = 4 and va = "[104, 101, 108, 111]" and ea = None
         and this_a = "\<lparr>reader = [], buffer = [104, 101, 108, 111]\<rparr>" and n = 2,
       THEN conjunct2, THEN conjunct2, THEN conjunct2, THEN conjunct2]
  show ?thesis
    using pending Peek_non_advancement
      [where rd = bytes_Reader and content = "\<lambda>s. s"
         and this = "NewPeekBuffer [104, 101, 108, 108, 111, 32, 119, 111, 114, 108, 100]"
         and szs = "[5, 3, 11]"
         and views = "[[104, 101, 108, 108, 111], [104, 101, 108],
                 [104, 101, 108, 108, 111, 32, 119, 111, 114, 108, 100]]"
         and this' = "\<lparr>reader = [], buffer = [104, 101, 108, 108, 111, 32, 119, 111, 114, 108, 100]\<rparr>"
         and a = 2 and b = 5 and va = "[104, 101]" and ea = None
         and this_a = "\<lparr>reader = [], buffer = [104, 101, 108, 108, 111, 32, 119, 111, 114, 108, 100]\<rparr>"
         and vb = "[104, 101, 108, 108, 111]" and eb = None
         and this_b = "\<lparr>reader = [], buffer = [104, 101, 108, 108, 111, 32, 119, 111, 114, 108, 100]\<rparr>"
         and pb = "NewPeekBuffer [104, 101, 108, 108, 111, 32, 119, 111, 114, 108, 100]"
         and pb_a = "\<lparr>reader = [], buffer = [104, 101, 108, 108, 111, 32, 119, 111, 114, 108, 100]\<rparr>"
         and pb_b = "\<lparr>reader = [], buffer = [104, 101, 108, 108, 111, 32, 119, 111, 114, 108, 100]\<rparr>"
         and n = 6]
    by (simp only: a b c d e f g delivers_bytes_Reader simp_thms)
qed

section \<open>Aliasing\<close>

lemma length_elems: "wf_slice h s \<Longrightarrow> length (elems h s) = len s"
  by (auto simp add: wf_slice_def elems_def)

lemma elems_slice_to:
  "k \<le> len s \<Longrightarrow> elems h (slice_to s k) = take k (elems h s)"
  by (simp add: elems_def slice_to_def min_def)

lemma elems_slice_from:
  "n \<le> len s \<Longrightarrow> elems h (slice_from s n) = drop n (elems h s)"
  by (simp add: elems_def slice_from_def drop_take add.commute)

lemma take_drop_store:
  assumes "i + length data \<le> length a" "o' \<le> i"
  shows "take (i - o' + length data) (drop o' (store a i data)) = take (i - o') (drop o' a) @ data"
proof -
  have "drop o' (store a i data) = drop o' (take i a) @ data @ drop (i + length data) a"
    using assms by (simp add: store_def)
  moreover have "length (drop o' (take i a)) = i - o'" using assms by simp
  ultimately have "take (i - o' + length data) (drop o' (store a i data)) =
      drop o' (take i a) @ data"
    by simp
  also have "drop o' (take i a) = take (i - o') (drop o' a)"
    by (simp add: drop_take)
  finally show ?thesis .
qed

lemma length_store:
  "i + length data \<le> length a \<Longrightarrow> length (store a i data) = length a"
  by (simp add: store_def)

lemma append_h_elems:
  assumes "wf_slice h s" "append_h grow h s data = (h', b)"
  shows "elems h' b = elems h s @ data" and "wf_slice h' b" and "len b = len s + length data"
proof -
  let ?a = "cells h (arr s)"
  show "elems h' b = elems h s @ data"
  proof (cases "len s + length data \<le> cap s")
    case True
    with assms(1) have fit: "off s + len s + length data \<le> length ?a"
      by (simp add: wf_slice_def)
    from True assms(2) have
      "elems h' b = take (len s + length data) (drop (off s) (store ?a (off s + len s) data))"
      by (auto simp add: append_h_def elems_def)
    also have "\<dots> = take (len s) (drop (off s) ?a) @ data"
      using take_drop_store [of "off s + len s" data ?a "off s"] fit by simp
    finally show ?thesis by (simp add: elems_def)
  next
    case False
    with assms show ?thesis
      by (auto simp add: append_h_def elems_def Let_def wf_slice_def)
  qed
  show "wf_slice h' b"
  proof (cases "len s + length data \<le> cap s")
    case True
    with assms(1) have fit: "off s + len s + length data \<le> length ?a"
      by (simp add: wf_slice_def)
    with True assms show ?thesis
      by (auto simp add: append_h_def wf_slice_def length_store)
  next
    case False
    with assms show ?thesis
      by (auto simp add: append_h_def elems_def Let_def wf_slice_def)
  qed
  show "len b = len s + length data"
    using assms(2) by (auto simp add: append_h_def Let_def split: if_splits)
qed



text \<open>\<^verbatim>\<open>copy(p, src)\<close>: what \<^verbatim>\<open>p[:n]\<close> holds afterwards, and the slices in other arrays.\<close>

lemma elems_copy_h_dst:
  assumes "wf_slice h p"
  shows "elems (copy_h h p src) (slice_to p (copy_n p src)) = take (copy_n p src) src"
proof -
  let ?a = "cells h (arr p)" and ?n = "copy_n p src"
  have n: "?n \<le> len p" "?n \<le> length src" by (simp_all add: copy_n_def)
  with assms have fit: "off p + ?n \<le> length ?a" by (simp add: wf_slice_def)
  have "elems (copy_h h p src) (slice_to p ?n) =
        take ?n (drop (off p) (store ?a (off p) (take ?n src)))"
    by (simp add: elems_def copy_h_def slice_to_def)
  also have "drop (off p) (store ?a (off p) (take ?n src)) = take ?n src @ drop (off p + ?n) ?a"
    using fit n by (simp add: store_def min_def)
  finally show ?thesis using n by (simp add: min_def)
qed

lemma elems_copy_h_other:
  "arr s \<noteq> arr p \<Longrightarrow> elems (copy_h h p src) s = elems h s"
  by (simp add: elems_def copy_h_def)



text \<open>The methods over the heap compute what the methods over lists compute.\<close>

lemma Peek_finish_h_refines:
  assumes "wf_slice h (buffer_h this)"
  shows "Peek_finish (abs_h h this) sz err =
     (case Peek_finish_h h this sz err of
        None \<Rightarrow> None
      | Some (Inl p) \<Rightarrow> Some (Inl p)
      | Some (Inr (view, e, h', this')) \<Rightarrow> Some (Inr (elems h' view, e, abs_h h' this')))"
proof -
  have "take (nat sz) (elems h (buffer_h this)) =
        elems h (slice_to (buffer_h this) (nat sz))" if "sz < int (len (buffer_h this))" "0 \<le> sz"
    using that by (simp add: elems_slice_to)
  moreover have "elems h (slice_to (buffer_h this) (len (buffer_h this))) = elems h (buffer_h this)"
    by (simp add: slice_to_def)
  ultimately show ?thesis
    using assms
    by (auto simp add: Peek_finish_def Peek_finish_h_def abs_h_def Let_def length_elems)
qed

lemma Peek_h_refines:
  assumes "wf_slice h (buffer_h this)"
  shows "Peek rd (abs_h h this) sz =
     (case Peek_h grow rd h this sz of
        None \<Rightarrow> None
      | Some (Inl p) \<Rightarrow> Some (Inl p)
      | Some (Inr (view, e, h', this')) \<Rightarrow> Some (Inr (elems h' view, e, abs_h h' this')))"
proof -
  let ?need = "int64 (sz - int (len (buffer_h this)))"
  let ?rn = "roundedNeed ?need"
  have len: "length (buffer (abs_h h this)) = len (buffer_h this)"
    using assms by (simp add: abs_h_def length_elems)
  have r: "reader (abs_h h this) = reader_h this" by (simp add: abs_h_def)
  show ?thesis
  proof (cases "?need > 0 \<and> \<not> make_panics ?rn")
    case False
    then show ?thesis
      using Peek_finish_h_refines [OF assms, of sz None]
      by (auto simp add: Peek_def Peek_h_def len Let_def)
  next
    case True
    show ?thesis
    proof (cases "ReadFull rd (reader_h this) (nat ?rn)")
      case None
      with True show ?thesis by (simp add: Peek_def Peek_h_def len r)
    next
      case (Some y)
      obtain data err r' where y: "y = (data, err, r')" by (cases y) auto
      obtain h1 b where app: "append_h grow h (buffer_h this) data = (h1, b)"
        by (cases "append_h grow h (buffer_h this) data") auto
      note ap = append_h_elems [OF assms app]
      have a1: "abs_h h this\<lparr>reader := r', buffer := buffer (abs_h h this) @ data\<rparr> =
                abs_h h1 (this\<lparr>reader_h := r', buffer_h := b\<rparr>)"
        using ap by (simp add: abs_h_def)
      have a2: "abs_h h this\<lparr>reader := r', buffer := buffer (abs_h h this) @ []\<rparr> =
                abs_h h (this\<lparr>reader_h := r'\<rparr>)"
        by (simp add: abs_h_def)
      have w: "wf_slice h1 (buffer_h (this\<lparr>reader_h := r', buffer_h := b\<rparr>))"
        "wf_slice h (buffer_h (this\<lparr>reader_h := r'\<rparr>))"
        using ap assms by simp_all
      show ?thesis
      proof (cases "data = []")
        case True
        with \<open>?need > 0 \<and> \<not> make_panics ?rn\<close> Some y show ?thesis
          using Peek_finish_h_refines [OF w(2), of sz err] a2
          by (simp add: Peek_def Peek_h_def len r)
      next
        case False
        with \<open>?need > 0 \<and> \<not> make_panics ?rn\<close> Some y app show ?thesis
          using Peek_finish_h_refines [OF w(1), of sz err] a1
          by (simp add: Peek_def Peek_h_def len r)
      qed
    qed
  qed
qed

lemma Read_h_pending:
  assumes "wf_slice h (buffer_h this)" "wf_slice h p" "arr p \<noteq> arr (buffer_h this)"
    and "0 < len (buffer_h this)"
    and "Read_h rd h this p = (n, err, h', this')"
  shows "n = min (len p) (len (buffer_h this))" and "err = None"
    and "elems h' (slice_to p n) = take n (elems h (buffer_h this))"
    and "elems h' (buffer_h this') = drop n (elems h (buffer_h this))"
    and "reader_h this' = reader_h this"
proof -
  let ?b = "buffer_h this"
  from assms(4,5) have n: "n = copy_n p (elems h ?b)" and e: "err = None"
    and h': "h' = copy_h h p (elems h ?b)" and t: "this' = this\<lparr>buffer_h := slice_from ?b n\<rparr>"
    by (auto simp add: Read_h_def Let_def)
  show "n = min (len p) (len ?b)" using n assms(1) by (simp add: copy_n_def length_elems)
  then have nb: "n \<le> len ?b" by simp
  show "err = None" by fact
  show "elems h' (slice_to p n) = take n (elems h ?b)"
    unfolding h' n by (rule elems_copy_h_dst [OF assms(2)])
  have "arr (slice_from ?b n) \<noteq> arr p" using assms(3) by (simp add: slice_from_def)
  then have "elems h' (slice_from ?b n) = elems h (slice_from ?b n)"
    unfolding h' by (rule elems_copy_h_other)
  also have "\<dots> = drop n (elems h ?b)" using nb by (rule elems_slice_from)
  finally show "elems h' (buffer_h this') = drop n (elems h ?b)" by (simp add: t)
  show "reader_h this' = reader_h this" by (simp add: t)
qed

lemma Read_h_refines:
  assumes "wf_slice h (buffer_h this)" "wf_slice h p" "arr p \<noteq> arr (buffer_h this)"
    and "conforming rd"
  shows "Read rd (abs_h h this) (len p) =
     (case Read_h rd h this p of
        (n, e, h', this') \<Rightarrow> (elems h' (slice_to p n), e, abs_h h' this'))"
proof (cases "0 < len (buffer_h this)")
  case True
  obtain n e h' this' where r: "Read_h rd h this p = (n, e, h', this')"
    by (cases "Read_h rd h this p") auto
  note R = Read_h_pending [OF assms(1,2,3) True r]
  from True assms(1) have "buffer (abs_h h this) \<noteq> []"
    using length_elems [OF assms(1)] by (auto simp add: abs_h_def)
  then show ?thesis
    using R r True length_elems [OF assms(1)] by (simp add: Read_def Let_def abs_h_def)
next
  case False
  then have e: "elems h (buffer_h this) = []" by (simp add: elems_def)
  obtain d er r' where rd: "rd (reader_h this) (len p) = (d, er, r')"
    by (cases "rd (reader_h this) (len p)") auto
  with assms(4) have "length d \<le> len p" unfolding conforming_def by (metis fst_conv)
  then have c: "copy_n p d = length d" by (simp add: copy_n_def)
  have "elems (copy_h h p d) (slice_to p (length d)) = d"
    using elems_copy_h_dst [OF assms(2), of d] c by simp
  moreover have "elems (copy_h h p d) (buffer_h this) = []"
    using False by (simp add: elems_def)
  ultimately show ?thesis
    using False e rd by (simp add: Read_def Read_h_def abs_h_def)
qed

lemma ReadByte_h_refines:
  assumes "wf_slice h (buffer_h this)"
  shows "ReadByte rd (abs_h h this) =
     (case ReadByte_h grow rd h this of
        None \<Rightarrow> None
      | Some (Inl p) \<Rightarrow> Some (Inl p)
      | Some (Inr (b, e, h', this')) \<Rightarrow> Some (Inr (b, e, abs_h h' this')))"
proof (cases "0 < len (buffer_h this)")
  case True
  then have "elems h (slice_from (buffer_h this) 1) = tl (elems h (buffer_h this))"
    by (simp add: elems_slice_from drop_Suc)
  with True show ?thesis
    using length_elems [OF assms] by (simp add: ReadByte_def ReadByte_h_def abs_h_def)
next
  case False
  then have e: "elems h (buffer_h this) = []" by (simp add: elems_def)
  show ?thesis
  proof (cases "ReadAtLeast rd (reader_h this) (nat FillPeekBufferSize) 1")
    case None
    with False e show ?thesis by (simp add: ReadByte_def ReadByte_h_def abs_h_def)
  next
    case (Some y)
    obtain data err r' where y: "y = (data, err, r')" by (cases y) auto
    obtain h1 b where app: "append_h grow h (buffer_h this) data = (h1, b)"
      by (cases "append_h grow h (buffer_h this) data") auto
    note ap = append_h_elems [OF assms app]
    have "elems h1 (slice_from b 1) = tl data" if "data \<noteq> []"
      using that ap e by (cases data) (simp_all add: elems_slice_from drop_Suc)
    with Some y app False e ap show ?thesis
      by (auto simp add: ReadByte_def ReadByte_h_def abs_h_def)
  qed
qed












end
